theory Spec2Isabelle
  imports Main "HOL-Library.AList"
begin

section \<open>Python values\<close>

text \<open>
  Paths are tuples of name segments. Runtime objects (\<open>NodeState\<close> instances) are
  identified by a reference; a dynamically typed attribute holds either a string or
  such a reference.
\<close>

type_synonym path = "string list"
type_synonym ref = nat

datatype pyobj = PStr string | PNode ref

text \<open>
  The values that flow through a graph. \<open>VParams\<close> is the namedtuple \<open>_params(args, kwargs)\<close>
  of context.py; \<open>VDict\<close> is a plain dict (what \<open>group(**kwargs)\<close> returns). A dict is an
  association list read through \<open>map_of\<close>.
\<close>

datatype val =
    VNone
  | VInt int
  | VStr string
  | VTuple "val list"
  | VParams "val list" "(pyobj \<times> val) list"
  | VDict "(pyobj \<times> val) list"

type_synonym dict = "(pyobj \<times> val) list"

datatype exc = ValueError | KeyError | AttributeError | TypeError | UserError string

text \<open>\<open>d[k] = v\<close> and \<open>d.update(e)\<close>.\<close>

definition dict_set :: "('k \<times> 'v) list \<Rightarrow> 'k \<Rightarrow> 'v \<Rightarrow> ('k \<times> 'v) list" where
  "dict_set d k v = AList.update k v d"

definition dict_update :: "('k \<times> 'v) list \<Rightarrow> ('k \<times> 'v) list \<Rightarrow> ('k \<times> 'v) list" where
  "dict_update d e = foldr (\<lambda>(k, v) acc. dict_set acc k v) e d"

section \<open>Callables and their signatures\<close>

text \<open>
  \<open>NodeArgSpec\<close> of context.py: the declared positional parameter names, the name of the
  variadic positional collector and the name of the variadic keyword collector.
\<close>

record arg_spec =
  spec_args :: "string list"
  spec_varargs :: "string option"
  spec_keywords :: "string option"

text \<open>\<open>NodeArgSpec.__contains__\<close>: membership in the set of declared names.\<close>

definition spec_contains :: "arg_spec \<Rightarrow> pyobj \<Rightarrow> bool" where
  "spec_contains sp k = (case k of PStr a \<Rightarrow> a \<in> set (spec_args sp) | PNode _ \<Rightarrow> False)"

text \<open>
  A user-supplied callable is opaque. The engine sees its identity, whether it is a
  plain function (has \<open>func_name\<close>), a bound method (has \<open>im_func\<close>) or an object with
  \<open>__call__\<close>, its declared name, and what \<open>inspect.getargspec\<close> reports for it (for a
  method and for \<open>obj.__call__\<close> this includes the receiver).
\<close>

datatype fkind = IsFunction | IsMethod | IsCallableObject

record callable =
  fn_id :: nat
  fn_kind :: fkind
  fn_name :: string
  fn_argspec :: arg_spec

text \<open>
  What the call expression \<open>func(*args, **kwargs)\<close> does is a parameter of the model:
  from the state of the user's world, the positional and the keyword arguments it gives a
  result or an exception, and the new state of the world.
\<close>

type_synonym 'w app = "callable \<Rightarrow> 'w \<Rightarrow> val list \<Rightarrow> dict \<Rightarrow> (exc + val) \<times> 'w"

section \<open>Runtime node state\<close>

text \<open>
  \<open>ParamTargetNodeStateWrapper.__init__(self, param_name, state)\<close> stores its two
  arguments as they come; Python does not check their types.
\<close>

datatype wrapper = ParamTargetNodeStateWrapper (wr_param_name: pyobj) (wr_state: pyobj)

datatype peer = Direct ref | Wrapped wrapper

record node_state =
  ns_name :: string
  ns_func :: callable
  ns_upstream :: "peer list"
  ns_downstream :: "ref list"
  ns_cache :: val
  ns_dirty :: bool
  ns_args_spec :: arg_spec
  ns_args :: "val list"
  ns_kwargs :: dict

text \<open>
  The state of a running instance: the heap of node objects, the state of the user's
  world, and a log of what happened (which node's callable was invoked, which node an
  invalidation marked), kept only to count these events.
\<close>

datatype event = Called ref | Invalidated ref

record 'w rt =
  heap :: "ref \<Rightarrow> node_state"
  world :: 'w
  trace :: "event list"

definition dirty :: "'w rt \<Rightarrow> ref \<Rightarrow> bool" where
  "dirty s n = ns_dirty (heap s n)"

definition cache :: "'w rt \<Rightarrow> ref \<Rightarrow> val" where
  "cache s n = ns_cache (heap s n)"

definition upd_node :: "'w rt \<Rightarrow> ref \<Rightarrow> (node_state \<Rightarrow> node_state) \<Rightarrow> 'w rt" where
  "upd_node s n f = s\<lparr>heap := (heap s)(n := f (heap s n))\<rparr>"

text \<open>The two assignments of \<open>_eval_cached\<close>: \<open>self._cache = v; self._dirty = False\<close>.\<close>

definition store_cache :: "'w rt \<Rightarrow> ref \<Rightarrow> val \<Rightarrow> 'w rt" where
  "store_cache s n v = upd_node s n (\<lambda>st. st\<lparr>ns_cache := v, ns_dirty := False\<rparr>)"

text \<open>The call of the bound callable, logged.\<close>

definition invoke :: "'w app \<Rightarrow> 'w rt \<Rightarrow> ref \<Rightarrow> val list \<Rightarrow> dict \<Rightarrow> (exc + val) \<times> 'w rt" where
  "invoke ap s n cargs ckw =
     (case ap (ns_func (heap s n)) (world s) cargs ckw of
        (r, w') \<Rightarrow> (r, s\<lparr>world := w', trace := trace s @ [Called n]\<rparr>))"

section \<open>Evaluation\<close>

text \<open>
  \<open>NodeState._eval_cached\<close>, \<open>NodeState._eval\<close>, the loop over \<open>self.upstream\<close> inside
  \<open>_eval\<close>, and \<open>_eval_cached\<close> of an upstream peer (a node or a wrapper). The recursion
  follows the upstream links and need not end (a cyclic wiring recurses for ever), so each
  entry into the evaluation of a dirty node uses one unit of fuel and \<open>None\<close> stands for
  running out of it. An exception is a result \<open>Inl e\<close>; the state reached when it was
  raised is returned with it.

  The three inner functions take the cached read of a node, \<open>ec\<close>, as an argument;
  \<open>eval_cached\<close> ties the knot by recursion on the fuel.
\<close>

type_synonym 'w outcome = "((exc + val) \<times> 'w rt) option"

text \<open>\<open>_eval_cached\<close> of an upstream peer. A wrapper reads \<open>self._state._eval_cached()\<close>;
  a string has no such attribute.\<close>

definition peer_eval_cached :: "('w rt \<Rightarrow> ref \<Rightarrow> 'w outcome) \<Rightarrow> 'w rt \<Rightarrow> peer \<Rightarrow> 'w outcome" where
  "peer_eval_cached ec s u =
     (case u of
        Direct m \<Rightarrow> ec s m
      | Wrapped w \<Rightarrow>
         (case wr_state w of
            PStr _ \<Rightarrow> Some (Inl AttributeError, s)
          | PNode m \<Rightarrow>
              (case ec s m of
                 None \<Rightarrow> None
               | Some (Inl e, s') \<Rightarrow> Some (Inl e, s')
               | Some (Inr v, s') \<Rightarrow> Some (Inr (VParams [] [(wr_param_name w, v)]), s'))))"

text \<open>The body of the loop in \<open>_eval\<close>: a \<open>_params\<close> result is spread, anything else is
  appended as one positional argument.\<close>

definition absorb :: "val list \<Rightarrow> dict \<Rightarrow> val \<Rightarrow> val list \<times> dict" where
  "absorb cargs ckw incoming =
     (case incoming of
        VParams a k \<Rightarrow> (cargs @ a, dict_update ckw k)
      | _ \<Rightarrow> (cargs @ [incoming], ckw))"

fun collect :: "('w rt \<Rightarrow> ref \<Rightarrow> 'w outcome) \<Rightarrow> 'w rt \<Rightarrow> peer list \<Rightarrow> val list \<Rightarrow> dict
                 \<Rightarrow> ((exc + val list \<times> dict) \<times> 'w rt) option" where
  "collect ec s [] cargs ckw = Some (Inr (cargs, ckw), s)"
| "collect ec s (u # us) cargs ckw =
     (case peer_eval_cached ec s u of
        None \<Rightarrow> None
      | Some (Inl e, s') \<Rightarrow> Some (Inl e, s')
      | Some (Inr incoming, s') \<Rightarrow>
          (case absorb cargs ckw incoming of (cargs', ckw') \<Rightarrow> collect ec s' us cargs' ckw'))"

text \<open>\<open>_eval(self, args, kwargs)\<close>: \<open>combined_args = []\<close>, \<open>combined_kwargs = kwargs\<close>, the
  loop, \<open>combined_args.extend(args)\<close>, the call.\<close>

definition eval_with :: "('w rt \<Rightarrow> ref \<Rightarrow> 'w outcome) \<Rightarrow> 'w app \<Rightarrow> 'w rt \<Rightarrow> ref \<Rightarrow> val list \<Rightarrow> dict
                          \<Rightarrow> 'w outcome" where
  "eval_with ec ap s n args kwargs =
     (case collect ec s (ns_upstream (heap s n)) [] kwargs of
        None \<Rightarrow> None
      | Some (Inl e, s') \<Rightarrow> Some (Inl e, s')
      | Some (Inr (cargs, ckw), s') \<Rightarrow> Some (invoke ap s' n (cargs @ args) ckw))"

primrec eval_cached :: "'w app \<Rightarrow> nat \<Rightarrow> 'w rt \<Rightarrow> ref \<Rightarrow> 'w outcome" where
  "eval_cached ap 0 s n =
     (if ns_dirty (heap s n) then None else Some (Inr (ns_cache (heap s n)), s))"
| "eval_cached ap (Suc f) s n =
     (if ns_dirty (heap s n) then
        (case eval_with (eval_cached ap f) ap s n (ns_args (heap s n)) (ns_kwargs (heap s n)) of
           None \<Rightarrow> None
         | Some (Inl e, s') \<Rightarrow> Some (Inl e, s')
         | Some (Inr v, s') \<Rightarrow> Some (Inr v, store_cache s' n v))
      else Some (Inr (ns_cache (heap s n)), s))"

text \<open>The direct call \<open>node(*args, **kwargs)\<close> and the property \<open>node.val\<close>.\<close>

definition eval :: "'w app \<Rightarrow> nat \<Rightarrow> 'w rt \<Rightarrow> ref \<Rightarrow> val list \<Rightarrow> dict \<Rightarrow> 'w outcome" where
  "eval ap f s n args kwargs = eval_with (eval_cached ap f) ap s n args kwargs"

definition node_call :: "'w app \<Rightarrow> nat \<Rightarrow> 'w rt \<Rightarrow> ref \<Rightarrow> val list \<Rightarrow> dict \<Rightarrow> 'w outcome" where
  "node_call ap f s n args kwargs = eval ap f s n args kwargs"

definition node_val :: "'w app \<Rightarrow> nat \<Rightarrow> 'w rt \<Rightarrow> ref \<Rightarrow> 'w outcome" where
  "node_val ap f s n = eval_cached ap f s n"

section \<open>Setting parameters and invalidation\<close>

text \<open>\<open>_set_args\<close> and \<open>_set_kwargs(kwargs, replace)\<close> of \<open>NodeState\<close>.\<close>

definition set_args :: "'w rt \<Rightarrow> ref \<Rightarrow> val list \<Rightarrow> 'w rt" where
  "set_args s n args = upd_node s n (\<lambda>st. st\<lparr>ns_args := args\<rparr>)"

definition filtered_kwargs :: "arg_spec \<Rightarrow> dict \<Rightarrow> dict \<Rightarrow> dict" where
  "filtered_kwargs sp old kwargs =
     (if spec_keywords sp = None
      then foldr (\<lambda>(k, v) acc. if spec_contains sp k then dict_set acc k v else acc) kwargs old
      else dict_update old kwargs)"

definition set_kwargs :: "'w rt \<Rightarrow> ref \<Rightarrow> dict \<Rightarrow> bool \<Rightarrow> 'w rt" where
  "set_kwargs s n kwargs replace =
     upd_node s n (\<lambda>st. st\<lparr>ns_kwargs :=
        filtered_kwargs (ns_args_spec st) (if replace then [] else ns_kwargs st) kwargs\<rparr>)"

text \<open>
  \<open>_invalidate\<close>: nothing for a dirty node; a clean node is marked dirty, its cache is
  dropped and the loop over \<open>self.downstream\<close> recurses. Each marking uses one unit of
  fuel.
\<close>

definition mark :: "'w rt \<Rightarrow> ref \<Rightarrow> 'w rt" where
  "mark s n = (upd_node s n (\<lambda>st. st\<lparr>ns_dirty := True, ns_cache := VNone\<rparr>))
                \<lparr>trace := trace s @ [Invalidated n]\<rparr>"

fun invalidate_each :: "('w rt \<Rightarrow> ref \<Rightarrow> 'w rt option) \<Rightarrow> 'w rt \<Rightarrow> ref list \<Rightarrow> 'w rt option" where
  "invalidate_each iv s [] = Some s"
| "invalidate_each iv s (d # ds) =
     (case iv s d of None \<Rightarrow> None | Some s' \<Rightarrow> invalidate_each iv s' ds)"

primrec invalidate :: "nat \<Rightarrow> 'w rt \<Rightarrow> ref \<Rightarrow> 'w rt option" where
  "invalidate 0 s n = (if ns_dirty (heap s n) then Some s else None)"
| "invalidate (Suc f) s n =
     (if ns_dirty (heap s n) then Some s
      else invalidate_each (invalidate f) (mark s n) (ns_downstream (heap s n)))"

text \<open>\<open>NodeState._set_params\<close> (behind \<open>node.set(*args, **kwargs)\<close>) and \<open>NodeState.update\<close>.\<close>

definition node_set_params :: "nat \<Rightarrow> 'w rt \<Rightarrow> ref \<Rightarrow> val list \<Rightarrow> dict \<Rightarrow> 'w rt option" where
  "node_set_params f s n args kwargs = invalidate f (set_kwargs (set_args s n args) n kwargs True) n"

definition node_update :: "nat \<Rightarrow> 'w rt \<Rightarrow> ref \<Rightarrow> dict \<Rightarrow> 'w rt option" where
  "node_update f s n kwargs = invalidate f (set_kwargs s n kwargs False) n"

section \<open>Example instances\<close>

text \<open>
  A callable that returns the number of calls made so far together with the positional
  arguments it received, and a two-node pipeline \<open>a \<rightarrow> b\<close> of fresh nodes.
\<close>

definition counter_app :: "nat app" where
  "counter_app c w args kw = (Inr (VTuple (VInt (int w) # args)), Suc w)"

definition no_params :: arg_spec where
  "no_params = \<lparr>spec_args = [], spec_varargs = None, spec_keywords = None\<rparr>"

definition fresh_node :: "string \<Rightarrow> peer list \<Rightarrow> ref list \<Rightarrow> node_state" where
  "fresh_node nm ups downs =
     \<lparr>ns_name = nm,
      ns_func = \<lparr>fn_id = 0, fn_kind = IsFunction, fn_name = nm, fn_argspec = no_params\<rparr>,
      ns_upstream = ups, ns_downstream = downs, ns_cache = VNone, ns_dirty = True,
      ns_args_spec = no_params, ns_args = [], ns_kwargs = []\<rparr>"

definition chain_rt :: "nat rt" where
  "chain_rt = \<lparr>heap = (\<lambda>_. fresh_node ''idle'' [] [])
                        (0 := fresh_node ''a'' [] [1], 1 := fresh_node ''b'' [Direct 0] []),
              world = 0, trace = []\<rparr>"

section \<open>Notions used in the proofs\<close>

text \<open>
  The node behind an upstream peer; \<open>keep S\<close>: the nodes of \<open>S\<close> are untouched and none
  of their callables was invoked; \<open>pending s S y\<close>: every node of \<open>S\<close> is dirty and waits
  for a peer in \<open>S\<close> or for \<open>y\<close> (the nodes whose evaluation is in progress when \<open>y\<close> is
  read); \<open>evolves\<close>: the only change to a node is that a dirty node got its cache.
\<close>

definition pnode :: "peer \<Rightarrow> ref option" where
  "pnode u = (case u of Direct m \<Rightarrow> Some m
              | Wrapped w \<Rightarrow> (case wr_state w of PNode m \<Rightarrow> Some m | PStr _ \<Rightarrow> None))"

definition keep :: "ref set \<Rightarrow> 'w rt \<Rightarrow> 'w rt \<Rightarrow> bool" where
  "keep S s s' \<longleftrightarrow> (\<forall>z\<in>S. heap s' z = heap s z \<and>
      count_list (trace s') (Called z) = count_list (trace s) (Called z))"

definition pending :: "'w rt \<Rightarrow> ref set \<Rightarrow> ref \<Rightarrow> bool" where
  "pending s S y \<longleftrightarrow> (\<forall>z\<in>S. ns_dirty (heap s z) \<and>
      (\<exists>u\<in>set (ns_upstream (heap s z)). \<exists>m. pnode u = Some m \<and> m \<in> insert y S))"

definition evolves :: "'w rt \<Rightarrow> 'w rt \<Rightarrow> bool" where
  "evolves s s' \<longleftrightarrow> (\<forall>z. heap s' z = heap s z \<or>
      (ns_dirty (heap s z) \<and> (\<exists>v. heap s' z = (heap s z)\<lparr>ns_cache := v, ns_dirty := False\<rparr>)))"



text \<open>The cached reads of a list of upstream peers, in order; what a peer's result adds
  to the positional_items arguments and to the keyword arguments.\<close>

fun read_all :: "('w rt \<Rightarrow> ref \<Rightarrow> 'w outcome) \<Rightarrow> 'w rt \<Rightarrow> peer list \<Rightarrow> ((exc + val list) \<times> 'w rt) option" where
  "read_all ec s [] = Some (Inr [], s)"
| "read_all ec s (u # us) =
     (case peer_eval_cached ec s u of
        None \<Rightarrow> None
      | Some (Inl e, s') \<Rightarrow> Some (Inl e, s')
      | Some (Inr v, s') \<Rightarrow>
          (case read_all ec s' us of
             None \<Rightarrow> None
           | Some (Inl e, s'') \<Rightarrow> Some (Inl e, s'')
           | Some (Inr vs, s'') \<Rightarrow> Some (Inr (v # vs), s'')))"

fun positional_items :: "val \<Rightarrow> val list" where
  "positional_items (VParams a k) = a"
| "positional_items v = [v]"

fun keyword_items :: "val \<Rightarrow> dict" where
  "keyword_items (VParams a k) = k"
| "keyword_items v = []"

section \<open>Runtime groups\<close>

text \<open>
  \<open>NodeGroup\<close>: the dict \<open>_items\<close> from names to node objects and nested groups.
\<close>

datatype gitem = GNode ref | GGroup "(string \<times> gitem) list"

type_synonym gitems = "(string \<times> gitem) list"

text \<open>\<open>key in self._items\<close> and \<open>self[key]\<close>.\<close>

definition item_of :: "gitems \<Rightarrow> pyobj \<Rightarrow> gitem option" where
  "item_of items key = (case key of PStr k \<Rightarrow> map_of items k | PNode _ \<Rightarrow> None)"

text \<open>\<open>NodeGroup._set_global_params\<close>: the loop over \<open>self._items.values()\<close>.\<close>

fun set_global_item :: "nat \<Rightarrow> dict \<Rightarrow> 'w rt \<Rightarrow> gitem \<Rightarrow> 'w rt option"
and set_global_params :: "nat \<Rightarrow> dict \<Rightarrow> 'w rt \<Rightarrow> gitems \<Rightarrow> 'w rt option" where
  "set_global_item f g s (GNode n) = invalidate f (set_kwargs s n g False) n"
| "set_global_item f g s (GGroup items) = set_global_params f g s items"
| "set_global_params f g s [] = Some s"
| "set_global_params f g s (ki # rest) =
     (case set_global_item f g s (snd ki) of
        None \<Rightarrow> None
      | Some s' \<Rightarrow> set_global_params f g s' rest)"

text \<open>
  \<open>NodeGroup._set_params_spec\<close>. An exception is returned with the state reached when it
  was raised. A \<open>_params\<close> value addressed to a group calls \<open>NodeGroup._set_params\<close> with
  one argument too many (TypeError); a dict addressed to a node finds no
  \<open>_set_params_spec\<close> on it (AttributeError).
\<close>

fun set_params_spec :: "nat \<Rightarrow> gitems \<Rightarrow> dict \<Rightarrow> 'w rt \<Rightarrow> dict \<Rightarrow> (exc option \<times> 'w rt) option"
and set_params_entry :: "nat \<Rightarrow> gitems \<Rightarrow> dict \<Rightarrow> 'w rt \<Rightarrow> pyobj \<Rightarrow> val \<Rightarrow> (exc option \<times> 'w rt) option" where
  "set_params_spec f items g s [] = Some (None, s)"
| "set_params_spec f items g s (kv # rest) =
     (case set_params_entry f items g s (fst kv) (snd kv) of
        None \<Rightarrow> None
      | Some (Some e, s') \<Rightarrow> Some (Some e, s')
      | Some (None, s') \<Rightarrow> set_params_spec f items g s' rest)"
| "set_params_entry f items g s key (VParams a k) =
     (case item_of items key of
        None \<Rightarrow> Some (Some KeyError, s)
      | Some (GNode n) \<Rightarrow>
          (case node_set_params f s n a (dict_update g k) of
             None \<Rightarrow> None
           | Some s' \<Rightarrow> Some (None, s'))
      | Some (GGroup sub) \<Rightarrow> Some (Some TypeError, s))"
| "set_params_entry f items g s key (VDict d) =
     (case item_of items key of
        None \<Rightarrow> Some (Some KeyError, s)
      | Some (GNode n) \<Rightarrow> Some (Some AttributeError, s)
      | Some (GGroup sub) \<Rightarrow> set_params_spec f sub g s d)"
| "set_params_entry f items g s key VNone = Some (Some ValueError, s)"
| "set_params_entry f items g s key (VInt i) = Some (Some ValueError, s)"
| "set_params_entry f items g s key (VStr x) = Some (Some ValueError, s)"
| "set_params_entry f items g s key (VTuple xs) = Some (Some ValueError, s)"

text \<open>\<open>NodeGroup._set_params\<close>, behind \<open>group.set(**kwargs)\<close>: the entries whose key names
  no direct child are global, the others are specific; the global ones are applied first.\<close>

definition global_entries :: "gitems \<Rightarrow> dict \<Rightarrow> dict" where
  "global_entries items kwargs = filter (\<lambda>kv. item_of items (fst kv) = None) kwargs"

definition specific_entries :: "gitems \<Rightarrow> dict \<Rightarrow> dict" where
  "specific_entries items kwargs = filter (\<lambda>kv. item_of items (fst kv) \<noteq> None) kwargs"

definition group_set_params :: "nat \<Rightarrow> gitems \<Rightarrow> 'w rt \<Rightarrow> dict \<Rightarrow> (exc option \<times> 'w rt) option" where
  "group_set_params f items s kwargs =
     (let spec_params = specific_entries items kwargs;
          global_params = global_entries items kwargs
      in case (if length global_params > 0 then set_global_params f global_params s items else Some s) of
           None \<Rightarrow> None
         | Some s1 \<Rightarrow>
             if length spec_params > 0 then set_params_spec f items global_params s1 spec_params
             else Some (None, s1))"

text \<open>
  The downstream links as a relation; the clean nodes; the invariant that every
  downstream peer of a dirty node is dirty; \<open>invalidated s vs s'\<close>: \<open>s'\<close> is \<open>s\<close> after an
  invalidation that marked exactly the nodes \<open>vs\<close>, in this order.
\<close>

definition downstream_rel :: "'w rt \<Rightarrow> (ref \<times> ref) set" where
  "downstream_rel s = {(a, b). b \<in> set (ns_downstream (heap s a))}"

definition clean_nodes :: "'w rt \<Rightarrow> ref set" where
  "clean_nodes s = {z. \<not> ns_dirty (heap s z)}"

definition downstream_dirty :: "'w rt \<Rightarrow> bool" where
  "downstream_dirty s \<longleftrightarrow>
     (\<forall>n. ns_dirty (heap s n) \<longrightarrow> (\<forall>d\<in>set (ns_downstream (heap s n)). ns_dirty (heap s d)))"

definition invalidated :: "'w rt \<Rightarrow> ref list \<Rightarrow> 'w rt \<Rightarrow> bool" where
  "invalidated s vs s' \<longleftrightarrow>
     trace s' = trace s @ map Invalidated vs \<and> world s' = world s \<and> distinct vs \<and>
     (\<forall>z\<in>set vs. \<not> ns_dirty (heap s z)) \<and>
     heap s' = (\<lambda>z. if z \<in> set vs then (heap s z)\<lparr>ns_dirty := True, ns_cache := VNone\<rparr> else heap s z) \<and>
     (\<forall>z\<in>set vs. \<forall>d\<in>set (ns_downstream (heap s z)). ns_dirty (heap s' d))"


text \<open>The pipeline \<open>a \<rightarrow> b\<close> after both nodes have been read.\<close>

definition settled_rt :: "nat rt" where
  "settled_rt = \<lparr>heap = (\<lambda>_. fresh_node ''idle'' [] [])
       (0 := (fresh_node ''a'' [] [1])\<lparr>ns_cache := VTuple [VInt 0], ns_dirty := False\<rparr>,
        1 := (fresh_node ''b'' [Direct 0] [])\<lparr>ns_cache := VTuple [VInt 1, VTuple [VInt 0]], ns_dirty := False\<rparr>),
     world = 2, trace = [Called 0, Called 1]\<rparr>"

text \<open>
  The invariant of an instance, in both forms: every upstream peer of a clean node is (a
  node that is) clean, and every downstream peer of a dirty node is dirty. \<open>wired\<close> says
  that the two link lists mirror each other, as instance construction builds them from the
  blueprint's two edge maps: a peer that stands for node \<open>m\<close> in \<open>n\<close>'s upstream list has \<open>n\<close>
  in \<open>m\<close>'s downstream list, and a downstream link \<open>m \<rightarrow> n\<close> has a peer in \<open>n\<close>'s upstream list
  (one that stands for \<open>m\<close>, or a wrapper holding no node).
\<close>

definition upstream_clean :: "'w rt \<Rightarrow> bool" where
  "upstream_clean s \<longleftrightarrow>
     (\<forall>n. \<not> ns_dirty (heap s n) \<longrightarrow>
        (\<forall>u\<in>set (ns_upstream (heap s n)). \<exists>m. pnode u = Some m \<and> \<not> ns_dirty (heap s m)))"

definition consistent :: "'w rt \<Rightarrow> bool" where
  "consistent s \<longleftrightarrow> upstream_clean s \<and> downstream_dirty s"

definition wired :: "'w rt \<Rightarrow> bool" where
  "wired s \<longleftrightarrow>
     (\<forall>n u m. u \<in> set (ns_upstream (heap s n)) \<and> pnode u = Some m \<longrightarrow> n \<in> set (ns_downstream (heap s m))) \<and>
     (\<forall>m n. n \<in> set (ns_downstream (heap s m)) \<longrightarrow>
        (\<exists>u\<in>set (ns_upstream (heap s n)). pnode u = Some m \<or> pnode u = None))"

definition inv_step :: "'w rt \<Rightarrow> 'w rt \<Rightarrow> bool" where
  "inv_step s s' \<longleftrightarrow> (consistent s \<and> wired s \<longrightarrow> consistent s' \<and> wired s')"

text \<open>
  The keywords a signature accepts; the node objects in the subtree of a group; the nodes
  that a specific-parameter dict addresses with a \<open>_params\<close> bundle, in the order of the
  loop of \<open>_set_params_spec\<close>, each with the bundle's args and kwargs; the stored parameters
  of a node, its kwargs read as a map.
\<close>

definition accepts :: "arg_spec \<Rightarrow> pyobj set" where
  "accepts sp = (if spec_keywords sp = None then {k. spec_contains sp k} else UNIV)"

fun leaves_item :: "gitem \<Rightarrow> ref set" and leaves :: "gitems \<Rightarrow> ref set" where
  "leaves_item (GNode n) = {n}"
| "leaves_item (GGroup items) = leaves items"
| "leaves [] = {}"
| "leaves (ki # rest) = leaves_item (snd ki) \<union> leaves rest"

fun addressed :: "gitems \<Rightarrow> dict \<Rightarrow> (ref \<times> val list \<times> dict) list"
and addressed_entry :: "gitems \<Rightarrow> pyobj \<Rightarrow> val \<Rightarrow> (ref \<times> val list \<times> dict) list" where
  "addressed items [] = []"
| "addressed items (kv # rest) = addressed_entry items (fst kv) (snd kv) @ addressed items rest"
| "addressed_entry items key (VParams a k) =
     (case item_of items key of Some (GNode n) \<Rightarrow> [(n, a, k)] | _ \<Rightarrow> [])"
| "addressed_entry items key (VDict d) =
     (case item_of items key of Some (GGroup sub) \<Rightarrow> addressed sub d | _ \<Rightarrow> [])"
| "addressed_entry items key VNone = []"
| "addressed_entry items key (VInt i) = []"
| "addressed_entry items key (VStr x) = []"
| "addressed_entry items key (VTuple xs) = []"

definition stored :: "'w rt \<Rightarrow> ref \<Rightarrow> val list \<times> (pyobj \<rightharpoonup> val)" where
  "stored s n = (ns_args (heap s n), map_of (ns_kwargs (heap s n)))"

text \<open>What a \<open>_params\<close> bundle with args \<open>a\<close> and kwargs \<open>k\<close>, addressed to node \<open>n\<close> while
  the global entries are \<open>g\<close>, leaves as the stored parameters of \<open>n\<close>.\<close>

definition routed :: "dict \<Rightarrow> 'w rt \<Rightarrow> ref \<Rightarrow> val list \<times> dict \<Rightarrow> val list \<times> (pyobj \<rightharpoonup> val)" where
  "routed g s n ak = (fst ak, (map_of g ++ map_of (snd ak)) |` accepts (ns_args_spec (heap s n)))"

text \<open>
  A group with a node \<open>x(data, fudge)\<close> and a sub-group holding \<open>y(data)\<close> and
  \<open>z(**kw)\<close>, all fresh.
\<close>

definition routing_items :: gitems where
  "routing_items = [(''x'', GNode 0), (''sub'', GGroup [(''y'', GNode 1), (''z'', GNode 2)])]"

definition routing_rt :: "unit rt" where
  "routing_rt = \<lparr>heap = (\<lambda>_. fresh_node ''idle'' [] [])
       (0 := (fresh_node ''x'' [] [])
               \<lparr>ns_args_spec := \<lparr>spec_args = [''data'', ''fudge''], spec_varargs = None, spec_keywords = None\<rparr>\<rparr>,
        1 := (fresh_node ''y'' [] [])
               \<lparr>ns_args_spec := \<lparr>spec_args = [''data''], spec_varargs = None, spec_keywords = None\<rparr>\<rparr>,
        2 := (fresh_node ''z'' [] [])
               \<lparr>ns_args_spec := \<lparr>spec_args = [], spec_varargs = None, spec_keywords = Some ''kw''\<rparr>\<rparr>),
     world = (), trace = []\<rparr>"

definition routing_kwargs :: dict where
  "routing_kwargs = [(PStr ''fudge'', VInt 10),
                     (PStr ''x'', VParams [VInt 1] [(PStr ''fudge'', VInt 11)])]"

section \<open>Blueprints\<close>

text \<open>\<open>EdgeDef\<close> and \<open>NodeDef\<close> of common.py. The owner of a node definition is the identity
  of the root graph that allocated it.\<close>

datatype edge_def = EdgeDef (e_node: path) (e_param: "string option")

record node_def =
  nd_owner :: nat
  nd_func :: callable
  nd_name :: string
  nd_prefix :: path
  nd_path :: path
  nd_args :: "val list"
  nd_kwargs :: dict

text \<open>\<open>NodeDef.__init__\<close> (\<open>args or ()\<close>, \<open>kwargs or {}\<close>), \<open>rebase\<close> and \<open>update\<close>.\<close>

definition NodeDef :: "nat \<Rightarrow> callable \<Rightarrow> path \<Rightarrow> string \<Rightarrow> val list option \<Rightarrow> dict option \<Rightarrow> node_def" where
  "NodeDef owner func prefix name args kwargs =
     \<lparr>nd_owner = owner, nd_func = func, nd_name = name, nd_prefix = prefix,
      nd_path = prefix @ [name],
      nd_args = (case args of None \<Rightarrow> [] | Some a \<Rightarrow> a),
      nd_kwargs = (case kwargs of None \<Rightarrow> [] | Some k \<Rightarrow> k)\<rparr>"

definition rebase :: "node_def \<Rightarrow> nat \<Rightarrow> path \<Rightarrow> node_def" where
  "rebase nd owner prefix =
     NodeDef owner (nd_func nd) prefix (nd_name nd) (Some (nd_args nd)) (Some (nd_kwargs nd))"

definition update_def :: "node_def \<Rightarrow> node_def \<Rightarrow> node_def" where
  "update_def nd other = nd\<lparr>nd_func := nd_func other, nd_args := nd_args other, nd_kwargs := nd_kwargs other\<rparr>"

text \<open>
  A graph object (\<open>BaseGraph\<close>): its own \<open>_items\<close>, its \<open>_prefix\<close>, the two edge maps it
  shares with its root, and the identity of the root. A \<open>SubGraph\<close> stored in \<open>_items\<close>
  carries its prefix and its items; the edge maps and the root are those of the graph it
  is nested in. A method that runs on a graph returns the graph with its items and the
  shared edge maps as the method left them.
\<close>

datatype bitem = BNode node_def | BSub path "(string \<times> bitem) list"

type_synonym bitems = "(string \<times> bitem) list"

type_synonym edge_map = "(path \<times> edge_def list) list"

record base_graph =
  bg_items :: bitems
  bg_prefix :: path
  bg_downstream :: edge_map
  bg_upstream :: edge_map
  bg_root :: nat

text \<open>What can be handed to a graph: a node definition, a \<open>functools.partial\<close>, a
  \<open>NamedFunc\<close> (the result of \<open>node(func, name)\<close>), a callable, a root \<open>Graph\<close>, a
  \<open>SubGraph\<close>, an \<open>EdgeDef\<close> naming a target parameter (a pipeline argument), or a tuple.\<close>

datatype sitem =
    SNodeDef node_def
  | SPartial sitem "val list" "dict option"
  | SNamedFunc sitem "string option"
  | SCallable callable
  | SGraph base_graph
  | SSubGraph base_graph
  | SEdgeDef sitem "string option"
  | STuple "sitem list"

text \<open>\<open>BaseGraph._store_node_def\<close>.\<close>

definition store_node_def :: "base_graph \<Rightarrow> node_def \<Rightarrow> exc + base_graph \<times> path" where
  "store_node_def g nd =
     (case map_of (bg_items g) (nd_name nd) of
        Some (BSub p its) \<Rightarrow> Inl ValueError
      | Some (BNode existing_node) \<Rightarrow>
          Inr (g\<lparr>bg_items := dict_set (bg_items g) (nd_name nd) (BNode (update_def existing_node nd))\<rparr>,
               nd_path nd)
      | None \<Rightarrow>
          Inr (g\<lparr>bg_items := dict_set (bg_items g) (nd_name nd) (BNode nd),
                 bg_downstream := dict_set (bg_downstream g) (nd_path nd) [],
                 bg_upstream := dict_set (bg_upstream g) (nd_path nd) []\<rparr>,
               nd_path nd))"

text \<open>The name of a callable when none is given: \<open>im_func.func_name\<close> of a method,
  \<open>func_name\<close> of a function unless it is a lambda; an object with \<open>__call__\<close> has neither.\<close>

definition deduce_name :: "callable \<Rightarrow> string option \<Rightarrow> exc + string" where
  "deduce_name c name =
     (case name of
        Some n \<Rightarrow> Inr n
      | None \<Rightarrow>
         (case fn_kind c of
            IsMethod \<Rightarrow> Inr (fn_name c)
          | IsFunction \<Rightarrow> if fn_name c = ''<lambda>'' then Inl ValueError else Inr (fn_name c)
          | IsCallableObject \<Rightarrow> Inl ValueError))"

text \<open>\<open>BaseGraph._store_node(item, name, args, kwargs)\<close>. A graph object is callable but has
  no name to deduce; a sub-graph, an edge descriptor and a tuple are not callable.\<close>

definition store_own_or_rebased :: "base_graph \<Rightarrow> node_def \<Rightarrow> exc + base_graph \<times> path" where
  "store_own_or_rebased g nd =
     (if nd_owner nd = bg_root g then Inr (g, nd_path nd)
      else store_node_def g (rebase nd (bg_root g) (bg_prefix g)))"

fun store_node :: "base_graph \<Rightarrow> sitem \<Rightarrow> string option \<Rightarrow> val list option \<Rightarrow> dict option
                    \<Rightarrow> exc + base_graph \<times> path" where
  "store_node g (SNodeDef nd) name args kwargs = store_own_or_rebased g nd"
| "store_node g (SPartial func pargs pkeywords) name args kwargs =
     (if args \<noteq> None \<or> kwargs \<noteq> None then Inl ValueError
      else store_node g func name (Some pargs) pkeywords)"
| "store_node g (SNamedFunc func nm) name args kwargs = store_node g func nm None None"
| "store_node g (SCallable c) name args kwargs =
     (case deduce_name c name of
        Inl e \<Rightarrow> Inl e
      | Inr nm \<Rightarrow> store_node_def g (NodeDef (bg_root g) c (bg_prefix g) nm args kwargs))"
| "store_node g (SGraph x) name args kwargs = Inl ValueError"
| "store_node g (SSubGraph x) name args kwargs = Inl ValueError"
| "store_node g (SEdgeDef x p) name args kwargs = Inl ValueError"
| "store_node g (STuple xs) name args kwargs = Inl ValueError"

text \<open>
  \<open>BaseGraph._pipe\<close>: every item becomes a vertex (the path \<open>_store_node\<close> returns, with the
  target parameter of an edge descriptor), then every vertex is wired to its successor:
  \<open>_downstream[source.node].append(target)\<close> and
  \<open>_upstream[target.node].append(EdgeDef(source.node, target.param))\<close>.
\<close>

definition store_vertex :: "base_graph \<Rightarrow> sitem \<Rightarrow> exc + base_graph \<times> edge_def" where
  "store_vertex g item =
     (case item of
        SEdgeDef nd p \<Rightarrow>
          (case store_node g nd None None None of
             Inl e \<Rightarrow> Inl e
           | Inr (g', pth) \<Rightarrow> Inr (g', EdgeDef pth p))
      | _ \<Rightarrow>
          (case store_node g item None None None of
             Inl e \<Rightarrow> Inl e
           | Inr (g', pth) \<Rightarrow> Inr (g', EdgeDef pth None)))"

fun store_vertices :: "base_graph \<Rightarrow> sitem list \<Rightarrow> exc + base_graph \<times> edge_def list" where
  "store_vertices g [] = Inr (g, [])"
| "store_vertices g (item # rest) =
     (case store_vertex g item of
        Inl e \<Rightarrow> Inl e
      | Inr (g', v) \<Rightarrow>
         (case store_vertices g' rest of
            Inl e \<Rightarrow> Inl e
          | Inr (g'', vs) \<Rightarrow> Inr (g'', v # vs)))"

definition edges_append :: "edge_map \<Rightarrow> path \<Rightarrow> edge_def \<Rightarrow> exc + edge_map" where
  "edges_append m k e =
     (case map_of m k of
        None \<Rightarrow> Inl KeyError
      | Some l \<Rightarrow> Inr (dict_set m k (l @ [e])))"

fun wire :: "base_graph \<Rightarrow> edge_def list \<Rightarrow> exc + base_graph" where
  "wire g (source # target # rest) =
     (case edges_append (bg_downstream g) (e_node source) target of
        Inl e \<Rightarrow> Inl e
      | Inr dn \<Rightarrow>
         (case edges_append (bg_upstream g) (e_node target) (EdgeDef (e_node source) (e_param target)) of
            Inl e \<Rightarrow> Inl e
          | Inr up \<Rightarrow> wire (g\<lparr>bg_downstream := dn, bg_upstream := up\<rparr>) (target # rest)))"
| "wire g vs = Inr g"

definition priv_pipe :: "base_graph \<Rightarrow> sitem list \<Rightarrow> exc + base_graph" where
  "priv_pipe g nodes =
     (case store_vertices g nodes of
        Inl e \<Rightarrow> Inl e
      | Inr (g', vertices) \<Rightarrow> wire g' vertices)"

text \<open>The method \<open>BaseGraph.pipe(*nodes)\<close>.\<close>

definition graph_pipe :: "base_graph \<Rightarrow> sitem list \<Rightarrow> exc + base_graph" where
  "graph_pipe g nodes = (if length nodes < 2 then Inl ValueError else priv_pipe g nodes)"

text \<open>
  \<open>_copy_structure(source_graph, target_graph, prefix)\<close> of \<open>_store_graph\<close>. The sub-graph of
  the target that receives a sub-graph of the source is the one found under the same key,
  or a new \<open>SubGraph\<close> with the extended prefix. When the target holds a node definition
  under that key, the first use of it as a graph raises \<open>TypeError\<close> (its \<open>__getattr__\<close>
  returns an edge descriptor for \<open>_store_node\<close> and \<open>_items\<close>); an empty source sub-graph
  never uses it.
\<close>

definition target_sub :: "base_graph \<Rightarrow> string \<Rightarrow> path \<Rightarrow> base_graph option" where
  "target_sub tg key new_prefix =
     (case map_of (bg_items tg) key of
        None \<Rightarrow> Some (tg\<lparr>bg_items := [], bg_prefix := new_prefix\<rparr>)
      | Some (BSub p its) \<Rightarrow> Some (tg\<lparr>bg_items := its, bg_prefix := p\<rparr>)
      | Some (BNode nd) \<Rightarrow> None)"

definition put_sub :: "base_graph \<Rightarrow> string \<Rightarrow> base_graph \<Rightarrow> base_graph" where
  "put_sub tg key child =
     tg\<lparr>bg_items := dict_set (bg_items tg) key (BSub (bg_prefix child) (bg_items child)),
        bg_downstream := bg_downstream child, bg_upstream := bg_upstream child\<rparr>"

function copy_structure :: "base_graph \<Rightarrow> bitems \<Rightarrow> path \<Rightarrow> exc + base_graph" where
  "copy_structure tg [] prefix = Inr tg"
| "copy_structure tg ((key, BNode nd) # rest) prefix =
     (case store_node tg (SNodeDef nd) None None None of
        Inl e \<Rightarrow> Inl e
      | Inr (tg', pth) \<Rightarrow> copy_structure tg' rest prefix)"
| "copy_structure tg ((key, BSub sp sitems) # rest) prefix =
     (case target_sub tg key (prefix @ [key]) of
        None \<Rightarrow> if sitems = [] then copy_structure tg rest prefix else Inl TypeError
      | Some new_graph \<Rightarrow>
         (case copy_structure new_graph sitems (prefix @ [key]) of
            Inl e \<Rightarrow> Inl e
          | Inr new_graph' \<Rightarrow> copy_structure (put_sub tg key new_graph') rest prefix))"
  by pat_completeness auto

termination
  by (relation "measure (\<lambda>(tg, its, p). size_list (size_prod (\<lambda>_. 0) size) its)") auto

text \<open>
  \<open>_copy_edges(source_edges, target_edges)\<close>: the edges of a source key are rebased by the
  prefix of the receiving graph and those not yet in the target's list are appended to it
  (the membership test is against the list as it was before this key).
\<close>

definition rebase_edge :: "path \<Rightarrow> edge_def \<Rightarrow> edge_def" where
  "rebase_edge prefix target = EdgeDef (prefix @ e_node target) (e_param target)"

fun copy_edges :: "path \<Rightarrow> edge_map \<Rightarrow> edge_map \<Rightarrow> exc + edge_map" where
  "copy_edges prefix [] target_edges = Inr target_edges"
| "copy_edges prefix ((source, targets) # rest) target_edges =
     (case map_of target_edges (prefix @ source) of
        None \<Rightarrow> Inl KeyError
      | Some target_edge \<Rightarrow>
          copy_edges prefix rest
            (dict_set target_edges (prefix @ source)
               (target_edge @ filter (\<lambda>edge. edge \<notin> set target_edge) (map (rebase_edge prefix) targets))))"

definition merge_graph :: "base_graph \<Rightarrow> base_graph \<Rightarrow> exc + base_graph" where
  "merge_graph root graph =
     (case copy_structure root (bg_items graph) (bg_prefix root) of
        Inl e \<Rightarrow> Inl e
      | Inr root' \<Rightarrow>
         (case copy_edges (bg_prefix root) (bg_downstream graph) (bg_downstream root') of
            Inl e \<Rightarrow> Inl e
          | Inr dn \<Rightarrow>
             (case copy_edges (bg_prefix root) (bg_upstream graph) (bg_upstream root') of
                Inl e \<Rightarrow> Inl e
              | Inr up \<Rightarrow> Inr (root'\<lparr>bg_downstream := dn, bg_upstream := up\<rparr>))))"

text \<open>
  \<open>BaseGraph._store_graph(graph, name)\<close>, for a \<open>graph\<close> that is another root blueprint.
  Handing a root graph to itself raises. Handing it to one of its own sub-graphs copies a
  structure that grows while it is copied; this case is outside the model (\<open>None\<close>).
\<close>

definition store_graph :: "base_graph \<Rightarrow> base_graph \<Rightarrow> string option \<Rightarrow> (exc + base_graph) option" where
  "store_graph self graph name =
     (if bg_root graph = bg_root self then (if bg_prefix self = [] then Some (Inl ValueError) else None)
      else
       (case name of
          None \<Rightarrow> Some (merge_graph self graph)
        | Some nm \<Rightarrow>
           (case target_sub self nm (bg_prefix self @ [nm]) of
              None \<Rightarrow> Some (Inl ValueError)
            | Some root \<Rightarrow>
               (case merge_graph root graph of
                  Inl e \<Rightarrow> Some (Inl e)
                | Inr root' \<Rightarrow> Some (Inr (put_sub self nm root'))))))"

text \<open>\<open>BaseGraph._store(item, name)\<close>, \<open>union(*graphs, **named_graphs)\<close>, the constructor
  \<open>Graph(*items, **named_items)\<close> of a new root with identity \<open>gid\<close>, and the top-level
  \<open>pipe(*args)\<close>.\<close>

definition store :: "base_graph \<Rightarrow> sitem \<Rightarrow> string option \<Rightarrow> (exc + base_graph) option" where
  "store g item name =
     (case item of
        SSubGraph x \<Rightarrow> Some (Inl ValueError)
      | SGraph graph \<Rightarrow> store_graph g graph name
      | _ \<Rightarrow>
         (case store_node g item name None None of
            Inl e \<Rightarrow> Some (Inl e)
          | Inr (g', pth) \<Rightarrow> Some (Inr g')))"

fun store_each :: "base_graph \<Rightarrow> (string option \<times> sitem) list \<Rightarrow> (exc + base_graph) option" where
  "store_each g [] = Some (Inr g)"
| "store_each g ((name, item) # rest) =
     (case store g item name of
        None \<Rightarrow> None
      | Some (Inl e) \<Rightarrow> Some (Inl e)
      | Some (Inr g') \<Rightarrow> store_each g' rest)"

definition union :: "base_graph \<Rightarrow> sitem list \<Rightarrow> (string \<times> sitem) list \<Rightarrow> (exc + base_graph) option" where
  "union g graphs named_graphs =
     store_each g (map (\<lambda>item. (None, item)) graphs @ map (\<lambda>(name, item). (Some name, item)) named_graphs)"

definition empty_graph :: "nat \<Rightarrow> base_graph" where
  "empty_graph gid = \<lparr>bg_items = [], bg_prefix = [], bg_downstream = [], bg_upstream = [], bg_root = gid\<rparr>"

definition Graph :: "nat \<Rightarrow> sitem list \<Rightarrow> (string \<times> sitem) list \<Rightarrow> (exc + base_graph) option" where
  "Graph gid items named_items = union (empty_graph gid) items named_items"

definition pipe :: "nat \<Rightarrow> sitem list \<Rightarrow> (exc + base_graph) option" where
  "pipe gid args =
     (if length args = 1 then Graph gid [STuple args] []
      else Some (priv_pipe (empty_graph gid) args))"

text \<open>Example blueprints: plain functions \<open>a\<close>, \<open>b\<close>, \<open>c\<close> and the pipeline \<open>a \<rightarrow> b\<close>.\<close>

definition plain_fn :: "nat \<Rightarrow> string \<Rightarrow> callable" where
  "plain_fn i nm = \<lparr>fn_id = i, fn_kind = IsFunction, fn_name = nm, fn_argspec = no_params\<rparr>"

definition pipeline_ab :: base_graph where
  "pipeline_ab =
     \<lparr>bg_items = [(''a'', BNode (NodeDef 0 (plain_fn 1 ''a'') [] ''a'' None None)),
                  (''b'', BNode (NodeDef 0 (plain_fn 2 ''b'') [] ''b'' None None))],
      bg_prefix = [],
      bg_downstream = [([''a''], [EdgeDef [''b''] None]), ([''b''], [])],
      bg_upstream = [([''a''], []), ([''b''], [EdgeDef [''a''] None])],
      bg_root = 0\<rparr>"

section \<open>Instances built from a blueprint\<close>

text \<open>
  \<open>NodeState.__init__(name, func, args, kwargs)\<close>: a dirty node without cache and links.
  For a method, and for an object with \<open>__call__\<close> (whose \<open>__call__\<close> method becomes the
  callable), the receiver is dropped from the declared names.
\<close>

definition NodeState :: "string \<Rightarrow> callable \<Rightarrow> val list \<Rightarrow> dict \<Rightarrow> node_state" where
  "NodeState name func args kwargs =
     \<lparr>ns_name = name, ns_func = func, ns_upstream = [], ns_downstream = [],
      ns_cache = VNone, ns_dirty = True,
      ns_args_spec =
        (if fn_kind func = IsFunction then fn_argspec func
         else (fn_argspec func)\<lparr>spec_args := drop 1 (spec_args (fn_argspec func))\<rparr>),
      ns_args = args, ns_kwargs = kwargs\<rparr>"

text \<open>
  \<open>Context.__init__\<close> walks the blueprint and allocates a node object for every node
  definition (\<open>_walk_graph\<close>), filling the group tree and the map \<open>_nodes\<close> from paths to
  node objects.
\<close>

record builder =
  b_nodes :: "(path \<times> ref) list"
  b_heap :: "ref \<Rightarrow> node_state"
  b_next :: ref

function walk_graph :: "bitems \<Rightarrow> gitems \<Rightarrow> builder \<Rightarrow> gitems \<times> builder" where
  "walk_graph [] target_group b = (target_group, b)"
| "walk_graph ((key, BNode value) # rest) target_group b =
     walk_graph rest (dict_set target_group key (GNode (b_next b)))
       (b\<lparr>b_nodes := dict_set (b_nodes b) (nd_path value) (b_next b),
          b_heap := (b_heap b)(b_next b := NodeState key (nd_func value) (nd_args value) (nd_kwargs value)),
          b_next := Suc (b_next b)\<rparr>)"
| "walk_graph ((key, BSub p its) # rest) target_group b =
     (case walk_graph its [] b of
        (new_group, b') \<Rightarrow> walk_graph rest (dict_set target_group key (GGroup new_group)) b')"
  by pat_completeness auto

termination
  by (relation "measure (\<lambda>(its, tg, b). size_list (size_prod (\<lambda>_. 0) size) its)") auto

text \<open>
  The two passes over the edge maps (\<open>_parse_edges\<close>). The downstream pass appends the
  target's node object to the source's downstream list. The upstream pass (\<open>_upstream_wire\<close>)
  appends the node object itself when the edge names no parameter, and otherwise
  \<open>ParamTargetNodeStateWrapper(target_node, target.param)\<close>: the node object in the first
  position, the parameter name in the second.
\<close>

definition add_downstream :: "(path \<times> ref) list \<Rightarrow> (ref \<Rightarrow> node_state) \<Rightarrow> ref \<Rightarrow> edge_def
                              \<Rightarrow> exc + (ref \<Rightarrow> node_state)" where
  "add_downstream nodes h source target =
     (case map_of nodes (e_node target) of
        None \<Rightarrow> Inl KeyError
      | Some target_node \<Rightarrow>
          Inr (h(source := (h source)\<lparr>ns_downstream := ns_downstream (h source) @ [target_node]\<rparr>)))"

definition wire_peer :: "ref \<Rightarrow> string option \<Rightarrow> peer" where
  "wire_peer target_node param =
     (case param of
        None \<Rightarrow> Direct target_node
      | Some p \<Rightarrow> Wrapped (ParamTargetNodeStateWrapper (PNode target_node) (PStr p)))"

definition upstream_wire :: "(path \<times> ref) list \<Rightarrow> (ref \<Rightarrow> node_state) \<Rightarrow> ref \<Rightarrow> edge_def
                              \<Rightarrow> exc + (ref \<Rightarrow> node_state)" where
  "upstream_wire nodes h source target =
     (case map_of nodes (e_node target) of
        None \<Rightarrow> Inl KeyError
      | Some target_node \<Rightarrow>
          Inr (h(source := (h source)\<lparr>ns_upstream := ns_upstream (h source) @ [wire_peer target_node (e_param target)]\<rparr>)))"

fun parse_targets :: "((path \<times> ref) list \<Rightarrow> (ref \<Rightarrow> node_state) \<Rightarrow> ref \<Rightarrow> edge_def \<Rightarrow> exc + (ref \<Rightarrow> node_state))
                       \<Rightarrow> (path \<times> ref) list \<Rightarrow> (ref \<Rightarrow> node_state) \<Rightarrow> path \<Rightarrow> edge_def list
                       \<Rightarrow> exc + (ref \<Rightarrow> node_state)" where
  "parse_targets add_func nodes h source [] = Inr h"
| "parse_targets add_func nodes h source (target # rest) =
     (case map_of nodes source of
        None \<Rightarrow> Inl KeyError
      | Some source_node \<Rightarrow>
         (case add_func nodes h source_node target of
            Inl e \<Rightarrow> Inl e
          | Inr h' \<Rightarrow> parse_targets add_func nodes h' source rest))"

fun parse_edges :: "((path \<times> ref) list \<Rightarrow> (ref \<Rightarrow> node_state) \<Rightarrow> ref \<Rightarrow> edge_def \<Rightarrow> exc + (ref \<Rightarrow> node_state))
                     \<Rightarrow> (path \<times> ref) list \<Rightarrow> (ref \<Rightarrow> node_state) \<Rightarrow> edge_map
                     \<Rightarrow> exc + (ref \<Rightarrow> node_state)" where
  "parse_edges add_func nodes h [] = Inr h"
| "parse_edges add_func nodes h ((source, targets) # rest) =
     (case parse_targets add_func nodes h source targets of
        Inl e \<Rightarrow> Inl e
      | Inr h' \<Rightarrow> parse_edges add_func nodes h' rest)"

text \<open>
  \<open>Context(graph_blueprint, kwargs)\<close>, started in the world \<open>w\<close>: the walk, the two passes,
  then the group \<open>set\<close> with the initial parameters.
\<close>

record 'w ctx =
  ctx_items :: gitems
  ctx_nodes :: "(path \<times> ref) list"
  ctx_rt :: "'w rt"

definition Context :: "nat \<Rightarrow> base_graph \<Rightarrow> dict \<Rightarrow> 'w \<Rightarrow> (exc + 'w ctx) option" where
  "Context f graph_blueprint kwargs w =
     (case walk_graph (bg_items graph_blueprint) []
             \<lparr>b_nodes = [], b_heap = (\<lambda>_. NodeState [] (plain_fn 0 []) [] []), b_next = 0\<rparr> of
        (items, b) \<Rightarrow>
          (case parse_edges add_downstream (b_nodes b) (b_heap b) (bg_downstream graph_blueprint) of
             Inl e \<Rightarrow> Some (Inl e)
           | Inr h1 \<Rightarrow>
              (case parse_edges upstream_wire (b_nodes b) h1 (bg_upstream graph_blueprint) of
                 Inl e \<Rightarrow> Some (Inl e)
               | Inr h2 \<Rightarrow>
                  (case group_set_params f items \<lparr>heap = h2, world = w, trace = []\<rparr> kwargs of
                     None \<Rightarrow> None
                   | Some (Some e, s) \<Rightarrow> Some (Inl e)
                   | Some (None, s) \<Rightarrow> Some (Inr \<lparr>ctx_items = items, ctx_nodes = b_nodes b, ctx_rt = s\<rparr>)))))"

text \<open>The blueprint of \<open>g = Graph(a, b); g.pipe(g.a, g.b.x)\<close>: the result of \<open>a\<close> is to arrive
  as the keyword argument \<open>x\<close> of \<open>b\<close>.\<close>

definition keyword_pipeline :: base_graph where
  "keyword_pipeline =
     \<lparr>bg_items = [(''a'', BNode (NodeDef 0 (plain_fn 1 ''a'') [] ''a'' None None)),
                  (''b'', BNode (NodeDef 0 (plain_fn 2 ''b'') [] ''b'' None None))],
      bg_prefix = [],
      bg_downstream = [([''a''], [EdgeDef [''b''] (Some ''x'')]), ([''b''], [])],
      bg_upstream = [([''a''], []), ([''b''], [EdgeDef [''a''] (Some ''x'')])],
      bg_root = 0\<rparr>"


function absorbed :: "nat \<Rightarrow> bitems \<Rightarrow> bitems \<Rightarrow> bool" where
  "absorbed r titems [] = True"
| "absorbed r titems ((key, BNode nd) # rest) =
     ((nd_owner nd = r \<or>
       (case map_of titems (nd_name nd) of
          Some (BNode ex) \<Rightarrow> nd_func ex = nd_func nd \<and> nd_args ex = nd_args nd \<and> nd_kwargs ex = nd_kwargs nd
        | _ \<Rightarrow> False)) \<and>
      absorbed r titems rest)"
| "absorbed r titems ((key, BSub sp sitems) # rest) =
     ((case map_of titems key of
         None \<Rightarrow> False
       | Some (BNode ex) \<Rightarrow> sitems = []
       | Some (BSub p its) \<Rightarrow> absorbed r its sitems) \<and>
      absorbed r titems rest)"
  by pat_completeness auto

termination
  by (relation "measure (\<lambda>(r, t, its). size_list (size_prod (\<lambda>_. 0) size) its)") auto

definition touched :: "bitems \<Rightarrow> string set" where
  "touched src = (\<lambda>(k, it). case it of BNode nd \<Rightarrow> nd_name nd | BSub p its \<Rightarrow> k) ` set src"




text \<open>The blueprint of \<open>h = pipe(a, b); h.pipe(h.a, h.b.x)\<close>, a second root graph: two
  edges from \<open>a\<close> to \<open>b\<close> that differ in the target parameter. \<open>both_routes\<close> is what the
  pipeline \<open>a \<rightarrow> b\<close> becomes when it has received them.\<close>

definition two_routes :: base_graph where
  "two_routes =
     \<lparr>bg_items = [(''a'', BNode (NodeDef 1 (plain_fn 1 ''a'') [] ''a'' None None)),
                  (''b'', BNode (NodeDef 1 (plain_fn 2 ''b'') [] ''b'' None None))],
      bg_prefix = [],
      bg_downstream = [([''a''], [EdgeDef [''b''] None, EdgeDef [''b''] (Some ''x'')]), ([''b''], [])],
      bg_upstream = [([''a''], []), ([''b''], [EdgeDef [''a''] None, EdgeDef [''a''] (Some ''x'')])],
      bg_root = 1\<rparr>"


text \<open>
  \<open>layered rank s\<close>: the wiring has no cycle, every upstream peer of a node has a smaller
  rank than the node.
\<close>

definition layered :: "(ref \<Rightarrow> nat) \<Rightarrow> 'w rt \<Rightarrow> bool" where
  "layered rank s \<longleftrightarrow>
     (\<forall>z. \<forall>u\<in>set (ns_upstream (heap s z)). \<forall>m. pnode u = Some m \<longrightarrow> rank m < rank z)"

text \<open>
  A callable that counts its calls in the world and returns the count with the arguments
  it received, and one that always raises. The blueprint \<open>pipe(a, b)\<close> of two functions
  \<open>a(x, y)\<close> and \<open>b(value, fudge)\<close>, its instance \<open>g = pipe(a, b)()\<close>, and the instance after
  \<open>g.a.set(5, y=10); g.b.update(fudge=10)\<close>.
\<close>

definition tally_app :: "nat app" where
  "tally_app c w args kw = (Inr (VTuple [VInt (int w), VTuple args, VDict kw]), Suc w)"

definition failing_app :: "nat app" where
  "failing_app c w args kw = (Inl (UserError ''boom''), Suc w)"

definition named_fn :: "nat \<Rightarrow> string \<Rightarrow> string list \<Rightarrow> callable" where
  "named_fn i nm names =
     \<lparr>fn_id = i, fn_kind = IsFunction, fn_name = nm,
      fn_argspec = \<lparr>spec_args = names, spec_varargs = None, spec_keywords = None\<rparr>\<rparr>"

definition scaled_pipeline :: base_graph where
  "scaled_pipeline =
     \<lparr>bg_items = [(''a'', BNode (NodeDef 0 (named_fn 1 ''a'' [''x'', ''y'']) [] ''a'' None None)),
                  (''b'', BNode (NodeDef 0 (named_fn 2 ''b'' [''value'', ''fudge'']) [] ''b'' None None))],
      bg_prefix = [],
      bg_downstream = [([''a''], [EdgeDef [''b''] None]), ([''b''], [])],
      bg_upstream = [([''a''], []), ([''b''], [EdgeDef [''a''] None])],
      bg_root = 0\<rparr>"

definition scaled_rt :: "nat rt" where
  "scaled_rt =
     \<lparr>heap = (\<lambda>_. NodeState [] (plain_fn 0 []) [] [])
         (0 := (NodeState ''a'' (named_fn 1 ''a'' [''x'', ''y'']) [] [])\<lparr>ns_downstream := [1]\<rparr>,
          1 := (NodeState ''b'' (named_fn 2 ''b'' [''value'', ''fudge'']) [] [])\<lparr>ns_upstream := [Direct 0]\<rparr>),
      world = 0, trace = []\<rparr>"

definition primed_rt :: "nat rt" where
  "primed_rt =
     \<lparr>heap = (\<lambda>_. NodeState [] (plain_fn 0 []) [] [])
         (0 := (NodeState ''a'' (named_fn 1 ''a'' [''x'', ''y'']) [VInt 5] [(PStr ''y'', VInt 10)])
                 \<lparr>ns_downstream := [1]\<rparr>,
          1 := (NodeState ''b'' (named_fn 2 ''b'' [''value'', ''fudge'']) [] [(PStr ''fudge'', VInt 10)])
                 \<lparr>ns_upstream := [Direct 0]\<rparr>),
      world = 0, trace = []\<rparr>"

text \<open>What the two nodes return when \<open>g.b.val\<close> is read in that instance, and the instance
  afterwards.\<close>

definition a_result :: val where
  "a_result = VTuple [VInt 0, VTuple [VInt 5], VDict [(PStr ''y'', VInt 10)]]"

definition b_result :: val where
  "b_result = VTuple [VInt 1, VTuple [a_result], VDict [(PStr ''fudge'', VInt 10)]]"

definition served_rt :: "nat rt" where
  "served_rt =
     \<lparr>heap = (\<lambda>_. NodeState [] (plain_fn 0 []) [] [])
         (0 := (NodeState ''a'' (named_fn 1 ''a'' [''x'', ''y'']) [VInt 5] [(PStr ''y'', VInt 10)])
                 \<lparr>ns_downstream := [1], ns_cache := a_result, ns_dirty := False\<rparr>,
          1 := (NodeState ''b'' (named_fn 2 ''b'' [''value'', ''fudge'']) [] [(PStr ''fudge'', VInt 10)])
                 \<lparr>ns_upstream := [Direct 0], ns_cache := b_result, ns_dirty := False\<rparr>),
      world = 2, trace = [Called 0, Called 1]\<rparr>"

text \<open>
  The edges of an edge map as pairs; \<open>mirrored\<close>: the two edge maps of a blueprint hold the
  same edges, \<open>s \<rightarrow> t\<close> with parameter \<open>p\<close> under \<open>s\<close> in the downstream map and under \<open>t\<close> in
  the upstream map, as pipelining writes them.
\<close>

definition edge_pairs :: "edge_map \<Rightarrow> (path \<times> edge_def) set" where
  "edge_pairs m = {(k, e). \<exists>l. (k, l) \<in> set m \<and> e \<in> set l}"

definition mirrored :: "base_graph \<Rightarrow> bool" where
  "mirrored g \<longleftrightarrow>
     (\<forall>s t p. (s, EdgeDef t p) \<in> edge_pairs (bg_downstream g) \<longleftrightarrow>
              (t, EdgeDef s p) \<in> edge_pairs (bg_upstream g))"

section \<open>Evaluation leaves the nodes in progress alone\<close>

lemma keep_refl: "keep S s s" by (simp add: keep_def)

lemma keep_trans: "keep S s s1 \<Longrightarrow> keep S s1 s2 \<Longrightarrow> keep S s s2" by (simp add: keep_def)

lemma keep_mono: "keep S s s' \<Longrightarrow> T \<subseteq> S \<Longrightarrow> keep T s s'" by (auto simp: keep_def)

lemma pending_keep: "pending s S y \<Longrightarrow> keep S s s' \<Longrightarrow> pending s' S y"
  by (simp add: pending_def keep_def)

lemma peer_cases:
  assumes "peer_eval_cached ec s u = Some (r, s')"
  shows "(pnode u = None \<and> s' = s \<and> isl r) \<or>
         (\<exists>m r0. pnode u = Some m \<and> ec s m = Some (r0, s') \<and> (isl r \<longleftrightarrow> isl r0))"
  using assms
  by (auto simp: peer_eval_cached_def pnode_def split: peer.splits pyobj.splits option.splits sum.splits prod.splits)

lemma trap_collect:
  assumes ec: "\<And>s m r s'. pending s S y \<Longrightarrow> ec s m = Some (r, s') \<Longrightarrow> keep S s s' \<and> (m \<in> S \<longrightarrow> isl r)"
  shows "pending s S y \<Longrightarrow> collect ec s us ca ck = Some (r, s') \<Longrightarrow>
         keep S s s' \<and> ((\<exists>u\<in>set us. \<exists>m\<in>S. pnode u = Some m) \<longrightarrow> isl r)"
proof (induction us arbitrary: s ca ck)
  case Nil
  then show ?case by (simp add: keep_refl)
next
  case (Cons u us)
  from Cons.prems(2) obtain r1 s1 where p: "peer_eval_cached ec s u = Some (r1, s1)"
    by (auto split: option.splits)
  from peer_cases[OF p] have k1: "keep S s s1" and i1: "\<And>m. pnode u = Some m \<Longrightarrow> m \<in> S \<Longrightarrow> isl r1"
    using ec[OF Cons.prems(1)] by (auto simp: keep_refl)
  show ?case
  proof (cases r1)
    case (Inl e)
    with p Cons.prems(2) have "r = Inl e" "s' = s1" by auto
    with k1 show ?thesis by simp
  next
    case (Inr v)
    obtain ca' ck' where ab: "absorb ca ck v = (ca', ck')" by (cases "absorb ca ck v")
    with Inr p Cons.prems(2) have c: "collect ec s1 us ca' ck' = Some (r, s')" by simp
    from Cons.IH[OF pending_keep[OF Cons.prems(1) k1] c] k1 i1 Inr
    show ?thesis by (auto intro: keep_trans)
  qed
qed

lemma invoke_heap: "invoke ap s n a k = (r, s') \<Longrightarrow> heap s' = heap s"
  by (auto simp: invoke_def split: prod.splits)

lemma invoke_trace: "invoke ap s n a k = (r, s') \<Longrightarrow> trace s' = trace s @ [Called n]"
  by (auto simp: invoke_def split: prod.splits)

lemma keep_invoke: "n \<notin> S \<Longrightarrow> invoke ap s n a k = (r, s') \<Longrightarrow> keep S s s'"
  by (auto simp: keep_def invoke_heap invoke_trace)

lemma keep_store_cache: "n \<notin> S \<Longrightarrow> keep S s (store_cache s n v)"
  by (auto simp: keep_def store_cache_def upd_node_def)

lemma trap_eval_cached:
  "pending s S y \<Longrightarrow> y \<in> S \<Longrightarrow> eval_cached ap f s n = Some (r, s') \<Longrightarrow>
   keep S s s' \<and> (n \<in> S \<longrightarrow> isl r)"
proof (induction f arbitrary: s n r s')
  case 0
  then show ?case by (auto simp: keep_refl pending_def split: if_splits)
next
  case (Suc f)
  show ?case
  proof (cases "ns_dirty (heap s n)")
    case False
    with Suc.prems show ?thesis by (auto simp: keep_refl pending_def)
  next
    case True
    with Suc.prems(3) obtain rc s1 where
      c: "collect (eval_cached ap f) s (ns_upstream (heap s n)) [] (ns_kwargs (heap s n)) = Some (rc, s1)"
      by (auto simp: eval_with_def split: option.splits)
    have ec: "\<And>s m r s'. pending s S y \<Longrightarrow> eval_cached ap f s m = Some (r, s') \<Longrightarrow>
               keep S s s' \<and> (m \<in> S \<longrightarrow> isl r)"
      using Suc.IH Suc.prems(2) by blast
    from trap_collect[of S y "eval_cached ap f", OF ec Suc.prems(1) c]
    have k1: "keep S s s1"
      and i1: "(\<exists>u\<in>set (ns_upstream (heap s n)). \<exists>m\<in>S. pnode u = Some m) \<longrightarrow> isl rc"
      by auto
    show ?thesis
    proof (cases rc)
      case (Inl e)
      with c True Suc.prems(3) have "r = Inl e" "s' = s1" by (auto simp: eval_with_def)
      with k1 show ?thesis by simp
    next
      case (Inr p)
      have nS: "n \<notin> S"
      proof
        assume "n \<in> S"
        with Suc.prems(1,2) have "\<exists>u\<in>set (ns_upstream (heap s n)). \<exists>m\<in>S. pnode u = Some m"
          unfolding pending_def by (simp add: insert_absorb) blast
        with i1 Inr show False by simp
      qed
      obtain ca ck where p: "p = (ca, ck)" by (cases p)
      obtain r2 s2 where iv: "invoke ap s1 n (ca @ ns_args (heap s n)) ck = (r2, s2)"
        by (cases "invoke ap s1 n (ca @ ns_args (heap s n)) ck")
      have k2: "keep S s s2" using keep_trans[OF k1 keep_invoke[OF nS iv]] .
      from c True Suc.prems(3) Inr p iv
      have "(r = r2 \<and> s' = s2) \<or> (\<exists>v. s' = store_cache s2 n v)"
        by (auto simp: eval_with_def split: sum.splits)
      with k2 nS show ?thesis by (auto intro: keep_trans keep_store_cache)
    qed
  qed
qed

lemma stack_collect:
  assumes ec: "\<And>s m r s'. pending s S m \<Longrightarrow> ec s m = Some (r, s') \<Longrightarrow> keep S s s'"
  shows "(\<forall>u\<in>set us. \<forall>m. pnode u = Some m \<longrightarrow> pending s S m) \<Longrightarrow>
         collect ec s us ca ck = Some (r, s') \<Longrightarrow> keep S s s'"
proof (induction us arbitrary: s ca ck)
  case Nil
  then show ?case by (simp add: keep_refl)
next
  case (Cons u us)
  from Cons.prems(2) obtain r1 s1 where p: "peer_eval_cached ec s u = Some (r1, s1)"
    by (auto split: option.splits)
  from peer_cases[OF p] have k1: "keep S s s1"
    using ec Cons.prems(1) by (auto simp: keep_refl)
  show ?case
  proof (cases r1)
    case (Inl e)
    with p Cons.prems(2) have "s' = s1" by auto
    with k1 show ?thesis by simp
  next
    case (Inr v)
    obtain ca' ck' where ab: "absorb ca ck v = (ca', ck')" by (cases "absorb ca ck v")
    with Inr p Cons.prems(2) have c: "collect ec s1 us ca' ck' = Some (r, s')" by simp
    have "\<forall>u\<in>set us. \<forall>m. pnode u = Some m \<longrightarrow> pending s1 S m"
      using Cons.prems(1) k1 by (auto intro: pending_keep)
    from Cons.IH[OF this c] k1 show ?thesis by (rule keep_trans[rotated])
  qed
qed

lemma pending_push:
  assumes "pending s S n" "ns_dirty (heap s n)" "u \<in> set (ns_upstream (heap s n))" "pnode u = Some m"
  shows "pending s (insert n S) m"
  using assms unfolding pending_def by (auto intro: bexI[of _ u])

lemma stack_eval_with:
  assumes ec: "\<And>s m r s'. pending s (insert n S) m \<Longrightarrow> ec s m = Some (r, s') \<Longrightarrow> keep (insert n S) s s'"
    and pe: "pending s S n" and d: "ns_dirty (heap s n)"
    and c: "collect ec s (ns_upstream (heap s n)) ca ck = Some (r, s')"
  shows "keep (insert n S) s s'"
proof -
  have "\<forall>u\<in>set (ns_upstream (heap s n)). \<forall>m. pnode u = Some m \<longrightarrow> pending s (insert n S) m"
    using pending_push[OF pe d] by blast
  from stack_collect[of "insert n S" ec, OF ec this c] show ?thesis .
qed

lemma stack_eval_cached:
  "pending s S n \<Longrightarrow> eval_cached ap f s n = Some (r, s') \<Longrightarrow> keep S s s'"
proof (induction f arbitrary: s n r s' S)
  case 0
  then show ?case by (auto simp: keep_refl split: if_splits)
next
  case (Suc f)
  show ?case
  proof (cases "n \<in> S")
    case True
    with trap_eval_cached[OF Suc.prems(1) True Suc.prems(2)] show ?thesis by simp
  next
    case nS: False
    show ?thesis
    proof (cases "ns_dirty (heap s n)")
      case False
      with Suc.prems show ?thesis by (auto simp: keep_refl)
    next
      case True
      with Suc.prems(2) obtain rc s1 where
        c: "collect (eval_cached ap f) s (ns_upstream (heap s n)) [] (ns_kwargs (heap s n)) = Some (rc, s1)"
        by (auto simp: eval_with_def split: option.splits)
      have "keep (insert n S) s s1"
        by (rule stack_eval_with[OF _ Suc.prems(1) True c]) (rule Suc.IH)
      then have k1: "keep S s s1" by (rule keep_mono) auto
      show ?thesis
      proof (cases rc)
        case (Inl e)
        with c True Suc.prems(2) have "s' = s1" by (auto simp: eval_with_def)
        with k1 show ?thesis by simp
      next
        case (Inr p)
        obtain ca ck where p: "p = (ca, ck)" by (cases p)
        obtain r2 s2 where iv: "invoke ap s1 n (ca @ ns_args (heap s n)) ck = (r2, s2)"
          by (cases "invoke ap s1 n (ca @ ns_args (heap s n)) ck")
        have k2: "keep S s s2" using keep_trans[OF k1 keep_invoke[OF nS iv]] .
        from c True Suc.prems(2) Inr p iv
        have "(r = r2 \<and> s' = s2) \<or> (\<exists>v. s' = store_cache s2 n v)"
          by (auto simp: eval_with_def split: sum.splits)
        with k2 nS show ?thesis by (auto intro: keep_trans keep_store_cache)
      qed
    qed
  qed
qed

lemma evolves_refl: "evolves s s" by (simp add: evolves_def)

lemma evolves_trans: "evolves s s1 \<Longrightarrow> evolves s1 s2 \<Longrightarrow> evolves s s2"
  unfolding evolves_def
proof (intro allI)
  fix z
  assume a: "\<forall>z. heap s1 z = heap s z \<or>
      (ns_dirty (heap s z) \<and> (\<exists>v. heap s1 z = (heap s z)\<lparr>ns_cache := v, ns_dirty := False\<rparr>))"
    and b: "\<forall>z. heap s2 z = heap s1 z \<or>
      (ns_dirty (heap s1 z) \<and> (\<exists>v. heap s2 z = (heap s1 z)\<lparr>ns_cache := v, ns_dirty := False\<rparr>))"
  from a[rule_format, of z] b[rule_format, of z]
  show "heap s2 z = heap s z \<or>
      (ns_dirty (heap s z) \<and> (\<exists>v. heap s2 z = (heap s z)\<lparr>ns_cache := v, ns_dirty := False\<rparr>))"
    by auto
qed

lemma evolves_clean: "evolves s s' \<Longrightarrow> \<not> ns_dirty (heap s z) \<Longrightarrow> heap s' z = heap s z"
  by (auto simp: evolves_def)

lemma evolves_invoke: "invoke ap s n a k = (r, s') \<Longrightarrow> evolves s s'"
  by (simp add: evolves_def invoke_heap)

lemma evolves_store_cache: "ns_dirty (heap s n) \<Longrightarrow> evolves s (store_cache s n v)"
  by (auto simp: evolves_def store_cache_def upd_node_def)

lemma evolves_collect:
  assumes ec: "\<And>s m r s'. ec s m = Some (r, s') \<Longrightarrow> evolves s s'"
  shows "collect ec s us ca ck = Some (r, s') \<Longrightarrow> evolves s s'"
proof (induction us arbitrary: s ca ck)
  case Nil
  then show ?case by (simp add: evolves_refl)
next
  case (Cons u us)
  from Cons.prems obtain r1 s1 where p: "peer_eval_cached ec s u = Some (r1, s1)"
    by (auto split: option.splits)
  from peer_cases[OF p] have k1: "evolves s s1"
    using ec by (auto simp: evolves_refl)
  show ?case
  proof (cases r1)
    case (Inl e)
    with p Cons.prems have "s' = s1" by auto
    with k1 show ?thesis by simp
  next
    case (Inr v)
    obtain ca' ck' where ab: "absorb ca ck v = (ca', ck')" by (cases "absorb ca ck v")
    with Inr p Cons.prems have c: "collect ec s1 us ca' ck' = Some (r, s')" by simp
    from Cons.IH[OF c] k1 show ?thesis by (rule evolves_trans[rotated])
  qed
qed

lemma evolves_eval_with:
  assumes ec: "\<And>s m r s'. ec s m = Some (r, s') \<Longrightarrow> evolves s s'"
    and e: "eval_with ec ap s n a k = Some (r, s')"
  shows "evolves s s'"
proof -
  from e obtain rc s1 where c: "collect ec s (ns_upstream (heap s n)) [] k = Some (rc, s1)"
    by (auto simp: eval_with_def split: option.splits)
  have k1: "evolves s s1" by (rule evolves_collect[of ec, OF ec c])
  show ?thesis
  proof (cases rc)
    case (Inl x)
    with c e have "s' = s1" by (auto simp: eval_with_def)
    with k1 show ?thesis by simp
  next
    case (Inr p)
    with c e have "invoke ap s1 n (fst p @ a) (snd p) = (r, s')"
      by (auto simp: eval_with_def split: prod.splits)
    from evolves_trans[OF k1 evolves_invoke[OF this]] show ?thesis .
  qed
qed

lemma evolves_store_cache2:
  "evolves s s2 \<Longrightarrow> ns_dirty (heap s n) \<Longrightarrow> evolves s (store_cache s2 n v)"
proof -
  assume e: "evolves s s2" and d: "ns_dirty (heap s n)"
  from e have "heap s2 n = heap s n \<or> (\<exists>v. heap s2 n = (heap s n)\<lparr>ns_cache := v, ns_dirty := False\<rparr>)"
    by (auto simp: evolves_def)
  then have n: "(heap s2 n)\<lparr>ns_cache := v, ns_dirty := False\<rparr> = (heap s n)\<lparr>ns_cache := v, ns_dirty := False\<rparr>"
    by auto
  show ?thesis
    unfolding evolves_def
  proof
    fix z
    show "heap (store_cache s2 n v) z = heap s z \<or>
          (ns_dirty (heap s z) \<and> (\<exists>va. heap (store_cache s2 n v) z = (heap s z)\<lparr>ns_cache := va, ns_dirty := False\<rparr>))"
    proof (cases "z = n")
      case True
      with n d show ?thesis by (auto simp: store_cache_def upd_node_def)
    next
      case False
      with e show ?thesis by (auto simp: store_cache_def upd_node_def evolves_def)
    qed
  qed
qed

lemma evolves_eval_cached: "eval_cached ap f s n = Some (r, s') \<Longrightarrow> evolves s s'"
proof (induction f arbitrary: s n r s')
  case 0
  then show ?case by (auto simp: evolves_refl split: if_splits)
next
  case (Suc f)
  show ?case
  proof (cases "ns_dirty (heap s n)")
    case False
    with Suc.prems show ?thesis by (auto simp: evolves_refl)
  next
    case True
    with Suc.prems obtain r2 s2 where
      e: "eval_with (eval_cached ap f) ap s n (ns_args (heap s n)) (ns_kwargs (heap s n)) = Some (r2, s2)"
      by (auto split: option.splits)
    have k2: "evolves s s2" by (rule evolves_eval_with[OF _ e]) (rule Suc.IH)
    from Suc.prems True e have "s' = s2 \<or> (\<exists>v. s' = store_cache s2 n v)"
      by (auto split: sum.splits)
    with k2 True show ?thesis by (auto intro: evolves_store_cache2)
  qed
qed

lemma eval_cached_clean: "\<not> ns_dirty (heap s n) \<Longrightarrow> eval_cached ap f s n = Some (Inr (ns_cache (heap s n)), s)"
  by (cases f) auto

lemma eval_own_node:
  assumes e: "eval_with (eval_cached ap f) ap s n a k = Some (r, s')"
  shows "heap s' n = heap s n"
proof (cases "ns_dirty (heap s n)")
  case False
  have "evolves s s'" by (rule evolves_eval_with[OF _ e]) (rule evolves_eval_cached)
  from evolves_clean[OF this False] show ?thesis .
next
  case True
  from e obtain rc s1 where c: "collect (eval_cached ap f) s (ns_upstream (heap s n)) [] k = Some (rc, s1)"
    by (auto simp: eval_with_def split: option.splits)
  have pe: "pending s {} n" by (simp add: pending_def)
  have "keep (insert n {}) s s1"
    by (rule stack_eval_with[OF _ pe True c]) (rule stack_eval_cached)
  then have "heap s1 n = heap s n" by (simp add: keep_def)
  with c e show ?thesis
    by (auto simp: eval_with_def invoke_heap split: sum.splits prod.splits)
qed

lemma chain_call_b:
  "node_call counter_app 1 chain_rt 1 [VInt 7] [] =
     Some (Inr (VTuple [VInt 1, VTuple [VInt 0], VInt 7]),
           (store_cache chain_rt 0 (VTuple [VInt 0]))\<lparr>world := 2, trace := [Called 0, Called 1]\<rparr>)"
  by (simp add: node_call_def eval_def eval_with_def chain_rt_def fresh_node_def
      peer_eval_cached_def absorb_def invoke_def counter_app_def store_cache_def upd_node_def)

section \<open>Direct calls\<close>

text \<open>
  C8. A direct call \<open>node(*args, **kwargs)\<close> that returns (with a value or an exception)
  leaves the dirty flag and the cache of the called node as they were, whatever the
  arguments and the wiring; when the node was clean, a cached read after the call still
  returns the value cached before it. Upstream peers may have been cached on the way.
\<close>

theorem direct_call_leaves_node_untouched:
  assumes "node_call ap f s n args kwargs = Some (r, s')"
  shows "dirty s' n = dirty s n \<and> cache s' n = cache s n \<and>
         (\<not> dirty s n \<longrightarrow> node_val ap f2 s' n = Some (Inr (cache s n), s'))"
proof -
  from assms have "heap s' n = heap s n"
    unfolding node_call_def eval_def by (rule eval_own_node)
  then show ?thesis
    by (simp add: dirty_def cache_def node_val_def eval_cached_clean)
qed

theorem direct_call_leaves_node_untouched_witness:
  "node_call counter_app 1 chain_rt 1 [VInt 7] [] =
     Some (Inr (VTuple [VInt 1, VTuple [VInt 0], VInt 7]),
           (store_cache chain_rt 0 (VTuple [VInt 0]))\<lparr>world := 2, trace := [Called 0, Called 1]\<rparr>)
   \<and> dirty chain_rt 1
   \<and> dirty ((store_cache chain_rt 0 (VTuple [VInt 0]))\<lparr>world := 2, trace := [Called 0, Called 1]\<rparr>) 1
   \<and> cache ((store_cache chain_rt 0 (VTuple [VInt 0]))\<lparr>world := 2, trace := [Called 0, Called 1]\<rparr>) 1
       = cache chain_rt 1"
proof -
  have d: "dirty chain_rt 1" by (simp add: dirty_def chain_rt_def fresh_node_def)
  from direct_call_leaves_node_untouched[OF chain_call_b, of 0] d chain_call_b
  show ?thesis by simp
qed

section \<open>Cached reads\<close>


lemma store_cache_trace: "trace (store_cache s n v) = trace s"
  by (simp add: store_cache_def upd_node_def)

lemma store_cache_own: "ns_dirty (heap (store_cache s n v) n) = False \<and> ns_cache (heap (store_cache s n v) n) = v"
  by (simp add: store_cache_def upd_node_def)

lemma eval_with_calls_once:
  assumes e: "eval_with (eval_cached ap f) ap s n a k = Some (Inr v, s')" and d: "ns_dirty (heap s n)"
  shows "count_list (trace s') (Called n) = Suc (count_list (trace s) (Called n))"
proof -
  from e obtain ca ck s1 where
    c: "collect (eval_cached ap f) s (ns_upstream (heap s n)) [] k = Some (Inr (ca, ck), s1)"
    and iv: "invoke ap s1 n (ca @ a) ck = (Inr v, s')"
    by (auto simp: eval_with_def split: option.splits sum.splits prod.splits)
  have pe: "pending s {} n" by (simp add: pending_def)
  have "keep (insert n {}) s s1"
    by (rule stack_eval_with[OF _ pe d c]) (rule stack_eval_cached)
  then have "count_list (trace s1) (Called n) = count_list (trace s) (Called n)"
    by (simp add: keep_def)
  with invoke_trace[OF iv] show ?thesis by simp
qed

lemma chain_val_a:
  "node_val counter_app 1 chain_rt 0 =
     Some (Inr (VTuple [VInt 0]), (store_cache chain_rt 0 (VTuple [VInt 0]))\<lparr>world := 1, trace := [Called 0]\<rparr>)"
  by (simp add: node_val_def eval_with_def chain_rt_def fresh_node_def
      peer_eval_cached_def absorb_def invoke_def counter_app_def store_cache_def upd_node_def)

section \<open>Argument assembly of a direct call\<close>

lemma map_of_dict_set: "map_of (dict_set d k v) = (map_of d)(k \<mapsto> v)"
  by (simp add: dict_set_def update_conv')

lemma map_of_dict_update: "map_of (dict_update d e) = map_of d ++ map_of e"
proof (induction e)
  case Nil
  then show ?case by (simp add: dict_update_def)
next
  case (Cons p e)
  have "dict_update d (p # e) = dict_set (dict_update d e) (fst p) (snd p)"
    by (simp add: dict_update_def case_prod_beta)
  then show ?case by (auto simp: map_of_dict_set Cons.IH map_add_def fun_eq_iff)
qed

lemma absorb_eq: "absorb ca ck v = (ca @ positional_items v, dict_update ck (keyword_items v))"
  by (cases v) (simp_all add: absorb_def dict_update_def)

lemma collect_read_all:
  "collect ec s us ca ck =
     (case read_all ec s us of
        None \<Rightarrow> None
      | Some (Inl e, s') \<Rightarrow> Some (Inl e, s')
      | Some (Inr vs, s') \<Rightarrow>
          Some (Inr (ca @ concat (map positional_items vs), foldl dict_update ck (map keyword_items vs)), s'))"
proof (induction us arbitrary: s ca ck)
  case Nil
  then show ?case by simp
next
  case (Cons u us)
  show ?case
    by (simp add: Cons.IH absorb_eq split: option.splits sum.splits prod.splits)
qed






section \<open>Invalidation\<close>

lemma invalidated_refl: "invalidated s [] s"
  by (simp add: invalidated_def)

lemma invalidated_heap:
  "invalidated s vs s' \<Longrightarrow>
   heap s' z = (if z \<in> set vs then (heap s z)\<lparr>ns_dirty := True, ns_cache := VNone\<rparr> else heap s z)"
  by (simp add: invalidated_def)

lemma invalidated_dirty_mono: "invalidated s vs s' \<Longrightarrow> ns_dirty (heap s z) \<Longrightarrow> ns_dirty (heap s' z)"
  by (simp add: invalidated_heap)

lemma invalidated_dirty_iff:
  "invalidated s vs s' \<Longrightarrow> ns_dirty (heap s' z) \<longleftrightarrow> ns_dirty (heap s z) \<or> z \<in> set vs"
  by (simp add: invalidated_heap)

lemma invalidated_downstream: "invalidated s vs s' \<Longrightarrow> ns_downstream (heap s' z) = ns_downstream (heap s z)"
  by (simp add: invalidated_heap)

lemma invalidated_closed:
  "invalidated s vs s' \<Longrightarrow> z \<in> set vs \<Longrightarrow> d \<in> set (ns_downstream (heap s z)) \<Longrightarrow> ns_dirty (heap s' d)"
  unfolding invalidated_def by blast


lemma invalidated_trans:
  assumes a: "invalidated s vs s1" and b: "invalidated s1 ws s2"
  shows "invalidated s (vs @ ws) s2"
proof -
  have disj: "set vs \<inter> set ws = {}"
  proof -
    have "\<And>z. z \<in> set ws \<Longrightarrow> z \<notin> set vs"
      using b invalidated_dirty_iff[OF a] by (auto simp: invalidated_def)
    then show ?thesis by auto
  qed
  have cl: "\<forall>z\<in>set (vs @ ws). \<not> ns_dirty (heap s z)"
    using a b invalidated_dirty_iff[OF a] by (auto simp: invalidated_def)
  have hp: "heap s2 = (\<lambda>z. if z \<in> set (vs @ ws) then (heap s z)\<lparr>ns_dirty := True, ns_cache := VNone\<rparr> else heap s z)"
  proof
    fix z
    show "heap s2 z = (if z \<in> set (vs @ ws) then (heap s z)\<lparr>ns_dirty := True, ns_cache := VNone\<rparr> else heap s z)"
      using disj by (auto simp: invalidated_heap[OF a] invalidated_heap[OF b])
  qed
  have dn: "\<forall>z\<in>set (vs @ ws). \<forall>d\<in>set (ns_downstream (heap s z)). ns_dirty (heap s2 d)"
  proof (intro ballI)
    fix z d assume z: "z \<in> set (vs @ ws)" and d: "d \<in> set (ns_downstream (heap s z))"
    show "ns_dirty (heap s2 d)"
    proof (cases "z \<in> set vs")
      case True
      from invalidated_closed[OF a True d] have "ns_dirty (heap s1 d)" .
      then show ?thesis by (rule invalidated_dirty_mono[OF b])
    next
      case False
      with z have zw: "z \<in> set ws" by simp
      from d have "d \<in> set (ns_downstream (heap s1 z))" by (simp add: invalidated_downstream[OF a])
      from invalidated_closed[OF b zw this] show ?thesis .
    qed
  qed
  from a b disj cl hp dn show ?thesis by (simp add: invalidated_def)
qed

lemma invalidate_each_effect:
  assumes iv: "\<And>s d s'. iv s d = Some s' \<Longrightarrow> \<exists>vs. invalidated s vs s' \<and> ns_dirty (heap s' d)"
  shows "invalidate_each iv s ds = Some s' \<Longrightarrow>
         \<exists>vs. invalidated s vs s' \<and> (\<forall>d\<in>set ds. ns_dirty (heap s' d))"
proof (induction ds arbitrary: s)
  case Nil
  then show ?case by (auto intro: invalidated_refl)
next
  case (Cons d ds)
  from Cons.prems obtain s1 where s1: "iv s d = Some s1" and r: "invalidate_each iv s1 ds = Some s'"
    by (auto split: option.splits)
  from iv[OF s1] obtain vs where a: "invalidated s vs s1" and dd: "ns_dirty (heap s1 d)" by blast
  from Cons.IH[OF r] obtain ws where b: "invalidated s1 ws s'" and ds: "\<forall>d\<in>set ds. ns_dirty (heap s' d)"
    by blast
  from invalidated_trans[OF a b] invalidated_dirty_mono[OF b dd] ds show ?case by auto
qed

lemma invalidated_mark:
  assumes c: "\<not> ns_dirty (heap s n)" and b: "invalidated (mark s n) ws s'"
    and d: "\<forall>d\<in>set (ns_downstream (heap s n)). ns_dirty (heap s' d)"
  shows "invalidated s (n # ws) s'"
proof -
  have hm: "\<And>z. heap (mark s n) z = (if z = n then (heap s z)\<lparr>ns_dirty := True, ns_cache := VNone\<rparr> else heap s z)"
    by (simp add: mark_def upd_node_def)
  have nw: "n \<notin> set ws" using b hm by (auto simp: invalidated_def)
  have cl: "\<forall>z\<in>set ws. \<not> ns_dirty (heap s z)" using b hm by (auto simp: invalidated_def split: if_splits)
  have hp: "heap s' = (\<lambda>z. if z \<in> set (n # ws) then (heap s z)\<lparr>ns_dirty := True, ns_cache := VNone\<rparr> else heap s z)"
  proof
    fix z
    show "heap s' z = (if z \<in> set (n # ws) then (heap s z)\<lparr>ns_dirty := True, ns_cache := VNone\<rparr> else heap s z)"
      using nw by (auto simp: invalidated_heap[OF b] hm)
  qed
  have dn: "\<forall>z\<in>set ws. \<forall>d\<in>set (ns_downstream (heap s z)). ns_dirty (heap s' d)"
  proof (intro ballI)
    fix z d assume z: "z \<in> set ws" and d: "d \<in> set (ns_downstream (heap s z))"
    from z nw have "heap (mark s n) z = heap s z" by (auto simp: hm)
    with d have "d \<in> set (ns_downstream (heap (mark s n) z))" by simp
    from invalidated_closed[OF b z this] show "ns_dirty (heap s' d)" .
  qed
  have tr: "trace s' = trace s @ map Invalidated (n # ws)"
    using b by (simp add: invalidated_def mark_def upd_node_def)
  have w: "world s' = world s" using b by (simp add: invalidated_def mark_def upd_node_def)
  from b have "distinct ws" by (simp add: invalidated_def)
  with nw c cl hp dn d tr w show ?thesis by (simp add: invalidated_def)
qed

lemma invalidate_effect:
  "invalidate f (s :: 'w rt) n = Some s' \<Longrightarrow>
   \<exists>vs. invalidated s vs s' \<and> ns_dirty (heap s' n) \<and> (ns_dirty (heap s n) \<longrightarrow> vs = [])"
proof (induction f arbitrary: s n s')
  case 0
  then show ?case by (auto intro: invalidated_refl split: if_splits)
next
  case (Suc f)
  show ?case
  proof (cases "ns_dirty (heap s n)")
    case True
    with Suc.prems show ?thesis by (auto intro: invalidated_refl)
  next
    case False
    with Suc.prems have e: "invalidate_each (invalidate f) (mark s n) (ns_downstream (heap s n)) = Some s'"
      by simp
    have "\<exists>vs. invalidated s vs s' \<and> ns_dirty (heap s' d)" if "invalidate f s d = Some s'" for s :: "'w rt" and d s'
      using Suc.IH[OF that] by auto
    from invalidate_each_effect[of "invalidate f", OF this e]
    obtain ws where b: "invalidated (mark s n) ws s'"
      and d: "\<forall>d\<in>set (ns_downstream (heap s n)). ns_dirty (heap s' d)" by blast
    have i: "invalidated s (n # ws) s'" by (rule invalidated_mark[OF False b d])
    then have "ns_dirty (heap s' n)" by (simp add: invalidated_heap)
    with i False show ?thesis by blast
  qed
qed

lemma invalidated_clean_nodes: "invalidated s vs s' \<Longrightarrow> clean_nodes s' = clean_nodes s - set vs"
  by (auto simp: clean_nodes_def invalidated_dirty_iff)

lemma invalidate_each_total:
  assumes tot: "\<And>s d. finite (clean_nodes s) \<Longrightarrow> card (clean_nodes s) \<le> f \<Longrightarrow> \<exists>s'. iv s d = Some s'"
    and eff: "\<And>s d s'. iv s d = Some s' \<Longrightarrow> \<exists>vs. invalidated s vs s'"
  shows "finite (clean_nodes s) \<Longrightarrow> card (clean_nodes s) \<le> f \<Longrightarrow> \<exists>s'. invalidate_each iv s ds = Some s'"
proof (induction ds arbitrary: s)
  case Nil
  then show ?case by simp
next
  case (Cons d ds)
  from tot[OF Cons.prems] obtain s1 where s1: "iv s d = Some s1" by blast
  from eff[OF s1] obtain vs where "invalidated s vs s1" by blast
  then have sub: "clean_nodes s1 \<subseteq> clean_nodes s" by (auto simp: invalidated_clean_nodes)
  with Cons.prems have "finite (clean_nodes s1)" "card (clean_nodes s1) \<le> f"
    by (auto intro: finite_subset dest: card_mono[OF Cons.prems(1)])
  from Cons.IH[OF this] s1 show ?case by simp
qed

lemma clean_nodes_mark: "clean_nodes (mark s n) = clean_nodes s - {n}"
  by (auto simp: clean_nodes_def mark_def upd_node_def)

lemma invalidate_total:
  "finite (clean_nodes (s :: 'w rt)) \<Longrightarrow> card (clean_nodes s) \<le> f \<Longrightarrow> \<exists>s'. invalidate f s n = Some s'"
proof (induction f arbitrary: s n)
  case 0
  then have "clean_nodes s = {}" by simp
  then show ?case by (auto simp: clean_nodes_def)
next
  case (Suc f)
  show ?case
  proof (cases "ns_dirty (heap s n)")
    case True
    then show ?thesis by simp
  next
    case False
    then have n: "n \<in> clean_nodes s" by (simp add: clean_nodes_def)
    with Suc.prems have "card (clean_nodes s - {n}) \<le> f" by (simp add: card_Diff_singleton)
    with Suc.prems(1) have fin: "finite (clean_nodes (mark s n))" and c: "card (clean_nodes (mark s n)) \<le> f"
      by (simp_all add: clean_nodes_mark)
    have eff: "\<exists>vs. invalidated s vs s'" if "invalidate f s d = Some s'" for s :: "'w rt" and d s'
      using invalidate_effect[OF that] by blast
    from invalidate_each_total[of f "invalidate f", OF Suc.IH eff fin c] False
    show ?thesis by simp
  qed
qed

lemma downstream_dirty_invalidated:
  assumes D: "downstream_dirty s" and i: "invalidated s vs s'"
  shows "downstream_dirty s'"
  unfolding downstream_dirty_def
proof (intro allI impI ballI)
  fix z d assume z: "ns_dirty (heap s' z)" and d: "d \<in> set (ns_downstream (heap s' z))"
  from d have d0: "d \<in> set (ns_downstream (heap s z))" by (simp add: invalidated_downstream[OF i])
  show "ns_dirty (heap s' d)"
  proof (cases "z \<in> set vs")
    case True
    from invalidated_closed[OF i True d0] show ?thesis .
  next
    case False
    with z have "ns_dirty (heap s z)" by (simp add: invalidated_dirty_iff[OF i])
    with D d0 have "ns_dirty (heap s d)" by (auto simp: downstream_dirty_def)
    then show ?thesis by (rule invalidated_dirty_mono[OF i])
  qed
qed




lemma set_params_unchanged:
  "ns_dirty (heap (set_kwargs s n k r) z) = ns_dirty (heap s z)"
  "ns_downstream (heap (set_kwargs s n k r) z) = ns_downstream (heap s z)"
  "ns_cache (heap (set_kwargs s n k r) z) = ns_cache (heap s z)"
  "trace (set_kwargs s n k r) = trace s"
  "ns_dirty (heap (set_args s n a) z) = ns_dirty (heap s z)"
  "ns_downstream (heap (set_args s n a) z) = ns_downstream (heap s z)"
  "ns_cache (heap (set_args s n a) z) = ns_cache (heap s z)"
  "trace (set_args s n a) = trace s"
  by (simp_all add: set_kwargs_def set_args_def upd_node_def)

lemma set_params_frame:
  "clean_nodes (set_kwargs s n k r) = clean_nodes s"
  "clean_nodes (set_args s n a) = clean_nodes s"
  "downstream_rel (set_kwargs s n k r) = downstream_rel s"
  "downstream_rel (set_args s n a) = downstream_rel s"
  "downstream_dirty (set_kwargs s n k r) = downstream_dirty s"
  "downstream_dirty (set_args s n a) = downstream_dirty s"
  by (simp_all add: clean_nodes_def downstream_rel_def downstream_dirty_def set_params_unchanged)






section \<open>Setting a node's parameters\<close>

lemma settled_clean: "clean_nodes settled_rt = {0, 1}"
  by (auto simp: clean_nodes_def settled_rt_def fresh_node_def)

lemma settled_downstream_dirty: "downstream_dirty settled_rt"
  by (simp add: downstream_dirty_def settled_rt_def fresh_node_def)

section \<open>The instance invariant\<close>

lemma inv_step_refl: "inv_step s s" by (simp add: inv_step_def)

lemma inv_step_trans: "inv_step s s1 \<Longrightarrow> inv_step s1 s2 \<Longrightarrow> inv_step s s2" by (simp add: inv_step_def)

lemma same_links_wired:
  assumes "\<And>z. ns_upstream (heap s' z) = ns_upstream (heap s z)"
    and "\<And>z. ns_downstream (heap s' z) = ns_downstream (heap s z)"
  shows "wired s' = wired s"
  by (simp add: wired_def assms)

lemma invalidated_upstream: "invalidated s vs s' \<Longrightarrow> ns_upstream (heap s' z) = ns_upstream (heap s z)"
  by (simp add: invalidated_heap)

lemma wired_invalidated: "invalidated s vs s' \<Longrightarrow> wired s' = wired s"
  by (rule same_links_wired) (simp_all add: invalidated_upstream invalidated_downstream)

lemma upstream_clean_invalidated:
  assumes U: "upstream_clean s" and W: "wired s" and i: "invalidated s vs s'"
  shows "upstream_clean s'"
  unfolding upstream_clean_def
proof (intro allI impI ballI)
  fix n u assume c: "\<not> ns_dirty (heap s' n)" and u: "u \<in> set (ns_upstream (heap s' n))"
  from c have cn: "\<not> ns_dirty (heap s n)" and nv: "n \<notin> set vs"
    by (simp_all add: invalidated_dirty_iff[OF i])
  from u have u0: "u \<in> set (ns_upstream (heap s n))" by (simp add: invalidated_upstream[OF i])
  with U cn obtain m where m: "pnode u = Some m" and cm: "\<not> ns_dirty (heap s m)"
    unfolding upstream_clean_def by blast
  have "m \<notin> set vs"
  proof
    assume mv: "m \<in> set vs"
    from W u0 m have "n \<in> set (ns_downstream (heap s m))" unfolding wired_def by blast
    from invalidated_closed[OF i mv this] c show False by simp
  qed
  with cm have "\<not> ns_dirty (heap s' m)" by (simp add: invalidated_dirty_iff[OF i])
  with m show "\<exists>m. pnode u = Some m \<and> \<not> ns_dirty (heap s' m)" by blast
qed

lemma inv_step_invalidated: "invalidated s vs s' \<Longrightarrow> inv_step s s'"
  unfolding inv_step_def consistent_def
  by (auto simp: wired_invalidated intro: upstream_clean_invalidated downstream_dirty_invalidated)

lemma inv_step_invalidate: "invalidate f s n = Some s' \<Longrightarrow> inv_step s s'"
  using invalidate_effect inv_step_invalidated by blast

lemma set_params_links:
  "ns_upstream (heap (set_kwargs s n k r) z) = ns_upstream (heap s z)"
  "ns_upstream (heap (set_args s n a) z) = ns_upstream (heap s z)"
  by (simp_all add: set_kwargs_def set_args_def upd_node_def)

lemma inv_step_set_kwargs: "inv_step s (set_kwargs s n k r)"
  unfolding inv_step_def consistent_def
  by (simp add: set_params_frame same_links_wired[of "set_kwargs s n k r" s] set_params_links
      set_params_unchanged upstream_clean_def)

lemma inv_step_set_args: "inv_step s (set_args s n a)"
  unfolding inv_step_def consistent_def
  by (simp add: set_params_frame same_links_wired[of "set_args s n a" s] set_params_links
      set_params_unchanged upstream_clean_def)

lemma inv_step_node_set_params: "node_set_params f s n a k = Some s' \<Longrightarrow> inv_step s s'"
  unfolding node_set_params_def
  by (blast intro: inv_step_trans inv_step_set_args inv_step_set_kwargs inv_step_invalidate)

lemma inv_step_node_update: "node_update f s n k = Some s' \<Longrightarrow> inv_step s s'"
  unfolding node_update_def
  by (blast intro: inv_step_trans inv_step_set_kwargs inv_step_invalidate)

lemma evolves_links:
  assumes "evolves s s'"
  shows "ns_upstream (heap s' z) = ns_upstream (heap s z)" "ns_downstream (heap s' z) = ns_downstream (heap s z)"
  using assms[unfolded evolves_def, rule_format, of z] by auto

lemma evolves_stays_clean: "evolves s s' \<Longrightarrow> \<not> ns_dirty (heap s z) \<Longrightarrow> \<not> ns_dirty (heap s' z)"
  by (simp add: evolves_clean)

lemma inv_step_same_heap: "heap s' = heap s \<Longrightarrow> inv_step s s'"
  by (simp add: inv_step_def consistent_def wired_def upstream_clean_def downstream_dirty_def)

lemma inv_step_store_cache:
  assumes up: "\<forall>u\<in>set (ns_upstream (heap s n)). \<exists>m. pnode u = Some m \<and> \<not> ns_dirty (heap s m)"
  shows "inv_step s (store_cache s n v)"
  unfolding inv_step_def
proof (intro impI conjI)
  let ?s' = "store_cache s n v"
  assume a: "consistent s \<and> wired s"
  then have U: "upstream_clean s" and D: "downstream_dirty s" and W: "wired s"
    by (simp_all add: consistent_def)
  have h: "\<And>z. heap ?s' z = (if z = n then (heap s n)\<lparr>ns_cache := v, ns_dirty := False\<rparr> else heap s z)"
    by (simp add: store_cache_def upd_node_def)
  have up': "\<And>z. ns_upstream (heap ?s' z) = ns_upstream (heap s z)"
    and dn': "\<And>z. ns_downstream (heap ?s' z) = ns_downstream (heap s z)"
    and di: "\<And>z. ns_dirty (heap ?s' z) = (z \<noteq> n \<and> ns_dirty (heap s z))"
    by (simp_all add: h)
  show "wired ?s'" using W by (simp add: same_links_wired[of ?s' s] up' dn')
  have "upstream_clean ?s'"
    unfolding upstream_clean_def
  proof (intro allI impI ballI)
    fix z u assume c: "\<not> ns_dirty (heap ?s' z)" and u: "u \<in> set (ns_upstream (heap ?s' z))"
    from u have u0: "u \<in> set (ns_upstream (heap s z))" by (simp add: up')
    have "\<exists>m. pnode u = Some m \<and> \<not> ns_dirty (heap s m)"
    proof (cases "z = n")
      case True
      with up u0 show ?thesis by blast
    next
      case False
      with c have "\<not> ns_dirty (heap s z)" by (simp add: di)
      with U u0 show ?thesis unfolding upstream_clean_def by blast
    qed
    then show "\<exists>m. pnode u = Some m \<and> \<not> ns_dirty (heap ?s' m)" by (auto simp: di)
  qed
  moreover have "downstream_dirty ?s'"
    unfolding downstream_dirty_def
  proof (intro allI impI ballI)
    fix z d assume z: "ns_dirty (heap ?s' z)" and d: "d \<in> set (ns_downstream (heap ?s' z))"
    from z have zn: "z \<noteq> n" and zd: "ns_dirty (heap s z)" by (simp_all add: di)
    from d have d0: "d \<in> set (ns_downstream (heap s z))" by (simp add: dn')
    with D zd have dd: "ns_dirty (heap s d)" unfolding downstream_dirty_def by blast
    have "d \<noteq> n"
    proof
      assume dn: "d = n"
      from W d0 dn obtain u where u: "u \<in> set (ns_upstream (heap s n))"
        and p: "pnode u = Some z \<or> pnode u = None" unfolding wired_def by blast
      from up u obtain m where "pnode u = Some m" "\<not> ns_dirty (heap s m)" by blast
      with p zd show False by auto
    qed
    with dd show "ns_dirty (heap ?s' d)" by (simp add: di)
  qed
  ultimately show "consistent ?s'" by (simp add: consistent_def)
qed

lemma settle_collect:
  assumes ec: "\<And>s m r s'. ec s m = Some (r, s') \<Longrightarrow>
                 evolves s s' \<and> inv_step s s' \<and> (\<forall>v. r = Inr v \<longrightarrow> \<not> ns_dirty (heap s' m))"
  shows "collect ec s us ca ck = Some (r, s') \<Longrightarrow>
         evolves s s' \<and> inv_step s s' \<and>
         (\<forall>p. r = Inr p \<longrightarrow> (\<forall>u\<in>set us. \<exists>m. pnode u = Some m \<and> \<not> ns_dirty (heap s' m)))"
proof (induction us arbitrary: s ca ck)
  case Nil
  then show ?case by (simp add: evolves_refl inv_step_refl)
next
  case (Cons u us)
  from Cons.prems obtain r1 s1 where p: "peer_eval_cached ec s u = Some (r1, s1)"
    by (auto split: option.splits)
  from peer_cases[OF p] have e1: "evolves s s1" and t1: "inv_step s s1"
    using ec by (auto simp: evolves_refl inv_step_refl)
  show ?case
  proof (cases r1)
    case (Inl e)
    with p Cons.prems have "s' = s1" "r = Inl e" by auto
    with e1 t1 show ?thesis by simp
  next
    case (Inr v)
    with peer_cases[OF p] obtain m r0 where m: "pnode u = Some m" and r0: "ec s m = Some (r0, s1)"
      and "\<not> isl r0" by auto
    then obtain v0 where "r0 = Inr v0" by (cases r0) auto
    with ec[OF r0] have cm: "\<not> ns_dirty (heap s1 m)" by simp
    obtain ca' ck' where ab: "absorb ca ck v = (ca', ck')" by (cases "absorb ca ck v")
    with Inr p Cons.prems have c: "collect ec s1 us ca' ck' = Some (r, s')" by simp
    from Cons.IH[OF c] have e2: "evolves s1 s'" and t2: "inv_step s1 s'"
      and rest: "\<forall>p. r = Inr p \<longrightarrow> (\<forall>u\<in>set us. \<exists>m. pnode u = Some m \<and> \<not> ns_dirty (heap s' m))"
      by simp_all
    from evolves_stays_clean[OF e2 cm] m
    have "\<exists>m. pnode u = Some m \<and> \<not> ns_dirty (heap s' m)" by simp
    with rest evolves_trans[OF e1 e2] inv_step_trans[OF t1 t2] show ?thesis by simp
  qed
qed

lemma settle_eval_with:
  assumes ec: "\<And>s m r s'. ec s m = Some (r, s') \<Longrightarrow>
                 evolves s s' \<and> inv_step s s' \<and> (\<forall>v. r = Inr v \<longrightarrow> \<not> ns_dirty (heap s' m))"
    and e: "eval_with ec ap s n a k = Some (r, s')"
  shows "evolves s s' \<and> inv_step s s' \<and>
         (\<forall>v. r = Inr v \<longrightarrow> (\<forall>u\<in>set (ns_upstream (heap s' n)). \<exists>m. pnode u = Some m \<and> \<not> ns_dirty (heap s' m)))"
proof -
  from e obtain rc s1 where c: "collect ec s (ns_upstream (heap s n)) [] k = Some (rc, s1)"
    by (auto simp: eval_with_def split: option.splits)
  from settle_collect[of ec, OF ec c] have e1: "evolves s s1" and t1: "inv_step s s1"
    and up: "\<forall>p. rc = Inr p \<longrightarrow> (\<forall>u\<in>set (ns_upstream (heap s n)). \<exists>m. pnode u = Some m \<and> \<not> ns_dirty (heap s1 m))"
    by simp_all
  show ?thesis
  proof (cases rc)
    case (Inl x)
    with c e have "s' = s1" "r = Inl x" by (auto simp: eval_with_def)
    with e1 t1 show ?thesis by simp
  next
    case (Inr p)
    with c e have iv: "invoke ap s1 n (fst p @ a) (snd p) = (r, s')"
      by (auto simp: eval_with_def split: prod.splits)
    have hh: "heap s' = heap s1" by (rule invoke_heap[OF iv])
    have e2: "evolves s s'" by (rule evolves_trans[OF e1 evolves_invoke[OF iv]])
    have t2: "inv_step s s'" by (rule inv_step_trans[OF t1 inv_step_same_heap[OF hh]])
    from up Inr have "\<forall>u\<in>set (ns_upstream (heap s' n)). \<exists>m. pnode u = Some m \<and> \<not> ns_dirty (heap s' m)"
      by (simp add: hh evolves_links[OF e1])
    with e2 t2 show ?thesis by simp
  qed
qed

lemma settle_eval_cached:
  "eval_cached ap f s n = Some (r, s') \<Longrightarrow>
   evolves s s' \<and> inv_step s s' \<and> (\<forall>v. r = Inr v \<longrightarrow> \<not> ns_dirty (heap s' n))"
proof (induction f arbitrary: s n r s')
  case 0
  then show ?case by (auto simp: evolves_refl inv_step_refl split: if_splits)
next
  case (Suc f)
  show ?case
  proof (cases "ns_dirty (heap s n)")
    case False
    with Suc.prems show ?thesis by (auto simp: evolves_refl inv_step_refl)
  next
    case True
    with Suc.prems obtain r2 s2 where
      e: "eval_with (eval_cached ap f) ap s n (ns_args (heap s n)) (ns_kwargs (heap s n)) = Some (r2, s2)"
      by (auto split: option.splits)
    from settle_eval_with[of "eval_cached ap f", OF Suc.IH e]
    have e2: "evolves s s2" and t2: "inv_step s s2"
      and up: "\<forall>v. r2 = Inr v \<longrightarrow> (\<forall>u\<in>set (ns_upstream (heap s2 n)). \<exists>m. pnode u = Some m \<and> \<not> ns_dirty (heap s2 m))"
      by simp_all
    show ?thesis
    proof (cases r2)
      case (Inl x)
      with e True Suc.prems have "s' = s2" "r = Inl x" by auto
      with e2 t2 show ?thesis by simp
    next
      case (Inr v)
      with e True Suc.prems have s': "s' = store_cache s2 n v" and r: "r = Inr v" by auto
      from up Inr have "inv_step s2 s'" unfolding s' by (intro inv_step_store_cache) simp
      with t2 have "inv_step s s'" by (rule inv_step_trans)
      moreover have "evolves s s'" unfolding s' by (rule evolves_store_cache2[OF e2 True])
      moreover have "\<not> ns_dirty (heap s' n)" by (simp add: s' store_cache_own)
      ultimately show ?thesis by simp
    qed
  qed
qed

lemma inv_step_eval_cached: "eval_cached ap f s n = Some (r, s') \<Longrightarrow> inv_step s s'"
  using settle_eval_cached by blast

lemma inv_step_eval:
  assumes "eval ap f s n a k = Some (r, s')"
  shows "inv_step s s'"
proof -
  from assms have e: "eval_with (eval_cached ap f) ap s n a k = Some (r, s')" by (simp add: eval_def)
  from settle_eval_with[of "eval_cached ap f", OF settle_eval_cached e] show ?thesis by simp
qed

lemma inv_step_set_global:
  "set_global_item f g s it = Some s' \<Longrightarrow> inv_step s s'"
  "set_global_params f g s items = Some s' \<Longrightarrow> inv_step s s'"
proof (induction f g s it and f g s items arbitrary: s' and s' rule: set_global_item_set_global_params.induct)
  case (1 f g s n)
  then show ?case by (auto intro: inv_step_trans[OF inv_step_set_kwargs inv_step_invalidate])
next
  case (2 f g s items)
  then show ?case by simp
next
  case (3 f g s)
  then show ?case by (simp add: inv_step_refl)
next
  case (4 f g s ki rest)
  from "4.prems" obtain s1 where a: "set_global_item f g s (snd ki) = Some s1"
    and b: "set_global_params f g s1 rest = Some s'" by (auto split: option.splits)
  from "4.IH"(1)[OF a] "4.IH"(2)[OF a b] show ?case by (rule inv_step_trans)
qed

lemma inv_step_set_params_spec:
  "set_params_spec f items g s sp = Some (e, s') \<Longrightarrow> inv_step s s'"
  "set_params_entry f items g s key v = Some (e, s') \<Longrightarrow> inv_step s s'"
proof (induction f items g s sp and f items g s key v arbitrary: e s' and e s'
    rule: set_params_spec_set_params_entry.induct)
  case (1 f items g s)
  then show ?case by (simp add: inv_step_refl)
next
  case (2 f items g s kv rest)
  from "2.prems" obtain e1 s1 where a: "set_params_entry f items g s (fst kv) (snd kv) = Some (e1, s1)"
    by (auto split: option.splits)
  show ?case
  proof (cases e1)
    case None
    with a "2.prems" have b: "set_params_spec f items g s1 rest = Some (e, s')" by simp
    from "2.IH"(1)[OF a] "2.IH"(2)[OF a _ _ b] None show ?thesis by (auto intro: inv_step_trans)
  next
    case (Some x)
    with a "2.prems" have "s' = s1" by simp
    with "2.IH"(1)[OF a] show ?thesis by simp
  qed
next
  case (3 f items g s key a k)
  then show ?case
    by (auto simp: inv_step_refl split: option.splits gitem.splits dest: inv_step_node_set_params)
next
  case (4 f items g s key d)
  then show ?case by (auto simp: inv_step_refl split: option.splits gitem.splits)
qed (simp_all add: inv_step_refl)

lemma inv_step_group_set_params:
  assumes "group_set_params f items s kwargs = Some (e, s')"
  shows "inv_step s s'"
proof -
  let ?g = "global_entries items kwargs"
  let ?sp = "specific_entries items kwargs"
  from assms obtain s1 where
    a: "(if length ?g > 0 then set_global_params f ?g s items else Some s) = Some s1"
    and b: "(if length ?sp > 0 then set_params_spec f items ?g s1 ?sp else Some (None, s1)) = Some (e, s')"
    unfolding group_set_params_def Let_def by (auto split: option.splits)
  from a have "inv_step s s1" by (auto simp: inv_step_refl dest: inv_step_set_global(2) split: if_splits)
  moreover from b have "inv_step s1 s'"
    by (auto simp: inv_step_refl dest: inv_step_set_params_spec(1) split: if_splits)
  ultimately show ?thesis by (rule inv_step_trans)
qed

lemma all_dirty_consistent: "\<forall>n. dirty s n \<Longrightarrow> consistent s"
  by (simp add: consistent_def upstream_clean_def downstream_dirty_def dirty_def)

lemma chain_wired: "wired chain_rt"
  by (auto simp: wired_def chain_rt_def fresh_node_def pnode_def split: if_splits)

lemma chain_all_dirty: "\<forall>n. dirty chain_rt n"
  by (simp add: dirty_def chain_rt_def fresh_node_def)

section \<open>Parameter routing\<close>

lemma map_of_filtered_kwargs:
  "map_of (filtered_kwargs sp old kw) = map_of old ++ (map_of kw |` accepts sp)"
proof (cases "spec_keywords sp = None")
  case False
  then have "filtered_kwargs sp old kw = dict_update old kw" and "accepts sp = UNIV"
    by (auto simp: filtered_kwargs_def accepts_def)
  then show ?thesis by (simp add: map_of_dict_update restrict_map_def)
next
  case True
  have "map_of (foldr (\<lambda>(k, v) acc. if spec_contains sp k then dict_set acc k v else acc) kw old)
        = map_of old ++ (map_of kw |` {k. spec_contains sp k})"
  proof (induction kw)
    case Nil
    then show ?case by simp
  next
    case (Cons p kw)
    then show ?case
      by (cases p) (auto simp: map_of_dict_set fun_eq_iff map_add_def restrict_map_def split: option.splits)
  qed
  moreover from True have "filtered_kwargs sp old kw =
      foldr (\<lambda>(k, v) acc. if spec_contains sp k then dict_set acc k v else acc) kw old"
    and "accepts sp = {k. spec_contains sp k}"
    by (simp_all add: filtered_kwargs_def accepts_def)
  ultimately show ?thesis by simp
qed

lemma map_add_twice: "m ++ r ++ r = m ++ r"
  by (auto simp: fun_eq_iff map_add_def split: option.splits)

lemma invalidate_stored:
  assumes "invalidate f s n = Some s'"
  shows "stored s' z = stored s z" "ns_args_spec (heap s' z) = ns_args_spec (heap s z)"
proof -
  from invalidate_effect[OF assms] obtain vs where i: "invalidated s vs s'" by auto
  show "stored s' z = stored s z" "ns_args_spec (heap s' z) = ns_args_spec (heap s z)"
    by (simp_all add: stored_def invalidated_heap[OF i])
qed

lemma set_kwargs_stored:
  "stored (set_kwargs s n kw r) z =
     (if z = n then (ns_args (heap s n),
                     (if r then Map.empty else map_of (ns_kwargs (heap s n))) ++
                       (map_of kw |` accepts (ns_args_spec (heap s n))))
      else stored s z)"
  "ns_args_spec (heap (set_kwargs s n kw r) z) = ns_args_spec (heap s z)"
  by (simp_all add: stored_def set_kwargs_def upd_node_def map_of_filtered_kwargs)

lemma set_args_stored:
  "stored (set_args s n a) z = (if z = n then (a, map_of (ns_kwargs (heap s n))) else stored s z)"
  "ns_args_spec (heap (set_args s n a) z) = ns_args_spec (heap s z)"
  "ns_kwargs (heap (set_args s n a) z) = ns_kwargs (heap s z)"
  by (simp_all add: stored_def set_args_def upd_node_def)

lemma node_set_params_stored:
  assumes "node_set_params f s n a kw = Some s'"
  shows "stored s' z = (if z = n then (a, map_of kw |` accepts (ns_args_spec (heap s n))) else stored s z)"
    "ns_args_spec (heap s' z) = ns_args_spec (heap s z)"
proof -
  let ?s0 = "set_kwargs (set_args s n a) n kw True"
  from assms have i: "invalidate f ?s0 n = Some s'" by (simp add: node_set_params_def)
  have "ns_args (heap (set_args s n a) n) = a" by (simp add: set_args_def upd_node_def)
  then show "stored s' z = (if z = n then (a, map_of kw |` accepts (ns_args_spec (heap s n))) else stored s z)"
    by (simp add: invalidate_stored[OF i] set_kwargs_stored set_args_stored)
  show "ns_args_spec (heap s' z) = ns_args_spec (heap s z)"
    by (simp add: invalidate_stored[OF i] set_kwargs_stored set_args_stored)
qed

lemma set_global_effect:
  "set_global_item f g s it = Some s' \<Longrightarrow>
     (\<forall>z. ns_args_spec (heap s' z) = ns_args_spec (heap s z)) \<and>
     (\<forall>z. stored s' z =
        (if z \<in> leaves_item it
         then (fst (stored s z), snd (stored s z) ++ (map_of g |` accepts (ns_args_spec (heap s z))))
         else stored s z))"
  "set_global_params f g s items = Some s' \<Longrightarrow>
     (\<forall>z. ns_args_spec (heap s' z) = ns_args_spec (heap s z)) \<and>
     (\<forall>z. stored s' z =
        (if z \<in> leaves items
         then (fst (stored s z), snd (stored s z) ++ (map_of g |` accepts (ns_args_spec (heap s z))))
         else stored s z))"
proof (induction f g s it and f g s items arbitrary: s' and s' rule: set_global_item_set_global_params.induct)
  case (1 f g s n)
  then show ?case by (simp add: invalidate_stored set_kwargs_stored) (simp add: stored_def)
next
  case (2 f g s items)
  then show ?case by simp
next
  case (3 f g s)
  then show ?case by simp
next
  case (4 f g s ki rest)
  from "4.prems" obtain s1 where a: "set_global_item f g s (snd ki) = Some s1"
    and b: "set_global_params f g s1 rest = Some s'" by (auto split: option.splits)
  note A = "4.IH"(1)[OF a] and B = "4.IH"(2)[OF a b]
  show ?case
  proof (intro conjI allI)
    fix z
    show "ns_args_spec (heap s' z) = ns_args_spec (heap s z)" using A B by simp
    show "stored s' z =
        (if z \<in> leaves (ki # rest)
         then (fst (stored s z), snd (stored s z) ++ (map_of g |` accepts (ns_args_spec (heap s z))))
         else stored s z)"
      using A B by (simp add: map_add_twice)
  qed
qed

lemma set_params_spec_effect:
  "set_params_spec f items g s sp = Some (None, s') \<Longrightarrow>
     (\<forall>z. ns_args_spec (heap s' z) = ns_args_spec (heap s z)) \<and>
     stored s' = foldl (\<lambda>P w. P(fst w := routed g s (fst w) (snd w))) (stored s) (addressed items sp)"
  "set_params_entry f items g s key v = Some (None, s') \<Longrightarrow>
     (\<forall>z. ns_args_spec (heap s' z) = ns_args_spec (heap s z)) \<and>
     stored s' = foldl (\<lambda>P w. P(fst w := routed g s (fst w) (snd w))) (stored s) (addressed_entry items key v)"
proof (induction f items g s sp and f items g s key v arbitrary: s' and s'
    rule: set_params_spec_set_params_entry.induct)
  case (1 f items g s)
  then show ?case by simp
next
  case (2 f items g s kv rest)
  from "2.prems" obtain s1 where a: "set_params_entry f items g s (fst kv) (snd kv) = Some (None, s1)"
    and b: "set_params_spec f items g s1 rest = Some (None, s')"
    by (auto split: option.splits prod.splits)
  note A = "2.IH"(1)[OF a] and B = "2.IH"(2)[OF a _ _ b]
  from A have r: "routed g s1 = routed g s" by (simp add: routed_def fun_eq_iff)
  from A B r show ?case by simp
next
  case (3 f items g s key a k)
  then show ?case
    by (auto simp: fun_eq_iff node_set_params_stored routed_def map_of_dict_update
        split: option.splits gitem.splits)
next
  case (4 f items g s key d)
  then show ?case by (auto split: option.splits gitem.splits)
qed simp_all

lemma foldl_point_updates:
  "foldl (\<lambda>P w. P(fst w := F (fst w) (snd w))) P0 ws z =
     (case map_of (rev ws) z of None \<Rightarrow> P0 z | Some ak \<Rightarrow> F z ak)"
  by (induction ws rule: rev_induct) auto

lemma invalidate_settles:
  assumes "finite (clean_nodes (s :: 'w rt))" "card (clean_nodes s) \<le> f"
  shows "\<exists>s'. invalidate f s n = Some s' \<and> clean_nodes s' \<subseteq> clean_nodes s"
proof -
  from invalidate_total[OF assms] obtain s' where s': "invalidate f s n = Some s'" by auto
  from invalidate_effect[OF s'] obtain vs where "invalidated s vs s'" by auto
  then have "clean_nodes s' \<subseteq> clean_nodes s" by (auto simp: invalidated_clean_nodes)
  with s' show ?thesis by simp
qed

lemma fits_subset:
  assumes "finite (clean_nodes s)" "card (clean_nodes s) \<le> f" "clean_nodes s' \<subseteq> clean_nodes s"
  shows "finite (clean_nodes s') \<and> card (clean_nodes s') \<le> f"
  using assms by (meson card_mono finite_subset le_trans)

lemma set_global_total:
  "finite (clean_nodes (s :: 'w rt)) \<Longrightarrow> card (clean_nodes s) \<le> f \<Longrightarrow>
     \<exists>s'. set_global_item f g s it = Some s' \<and> clean_nodes s' \<subseteq> clean_nodes s"
  "finite (clean_nodes (s :: 'w rt)) \<Longrightarrow> card (clean_nodes s) \<le> f \<Longrightarrow>
     \<exists>s'. set_global_params f g s items = Some s' \<and> clean_nodes s' \<subseteq> clean_nodes s"
proof (induction f g s it and f g s items rule: set_global_item_set_global_params.induct)
  case (1 f g s n)
  from invalidate_settles[of "set_kwargs s n g False" f n] "1.prems"
  show ?case by (simp add: set_params_frame)
next
  case (2 f g s items)
  then show ?case by simp
next
  case (3 f g s)
  then show ?case by simp
next
  case (4 f g s ki rest)
  from "4.IH"(1)[OF "4.prems"] obtain s1 where a: "set_global_item f g s (snd ki) = Some s1"
    and c1: "clean_nodes s1 \<subseteq> clean_nodes s" by auto
  from fits_subset[OF "4.prems" c1] have "finite (clean_nodes s1)" "card (clean_nodes s1) \<le> f" by simp_all
  from "4.IH"(2)[OF a this] obtain s2 where b: "set_global_params f g s1 rest = Some s2"
    and c2: "clean_nodes s2 \<subseteq> clean_nodes s1" by auto
  from a b c1 c2 show ?case by auto
qed

lemma set_params_spec_total:
  "finite (clean_nodes (s :: 'w rt)) \<Longrightarrow> card (clean_nodes s) \<le> f \<Longrightarrow>
     \<exists>e s'. set_params_spec f items g s sp = Some (e, s') \<and> clean_nodes s' \<subseteq> clean_nodes s"
  "finite (clean_nodes (s :: 'w rt)) \<Longrightarrow> card (clean_nodes s) \<le> f \<Longrightarrow>
     \<exists>e s'. set_params_entry f items g s key v = Some (e, s') \<and> clean_nodes s' \<subseteq> clean_nodes s"
proof (induction f items g s sp and f items g s key v rule: set_params_spec_set_params_entry.induct)
  case (1 f items g s)
  then show ?case by simp
next
  case (2 f items g s kv rest)
  from "2.IH"(1)[OF "2.prems"] obtain e1 s1 where
    a: "set_params_entry f items g s (fst kv) (snd kv) = Some (e1, s1)"
    and c1: "clean_nodes s1 \<subseteq> clean_nodes s" by auto
  show ?case
  proof (cases e1)
    case (Some x)
    with a c1 show ?thesis by simp
  next
    case None
    from fits_subset[OF "2.prems" c1] have "finite (clean_nodes s1)" "card (clean_nodes s1) \<le> f"
      by simp_all
    from "2.IH"(2)[OF a[unfolded None] _ _ this] obtain e2 s2 where
      b: "set_params_spec f items g s1 rest = Some (e2, s2)"
      and c2: "clean_nodes s2 \<subseteq> clean_nodes s1" by auto
    from a None b c1 c2 show ?thesis by auto
  qed
next
  case (3 f items g s key a k)
  show ?case
  proof (cases "item_of items key")
    case None
    then show ?thesis by simp
  next
    case (Some it)
    show ?thesis
    proof (cases it)
      case (GNode n)
      from invalidate_settles[of "set_kwargs (set_args s n a) n (dict_update g k) True" f n] "3.prems"
      show ?thesis using Some GNode by (auto simp: node_set_params_def set_params_frame)
    next
      case (GGroup sub)
      with Some show ?thesis by simp
    qed
  qed
next
  case (4 f items g s key d)
  show ?case
  proof (cases "item_of items key")
    case None
    then show ?thesis by simp
  next
    case (Some it)
    show ?thesis
    proof (cases it)
      case (GNode n)
      with Some show ?thesis by simp
    next
      case (GGroup sub)
      from "4.IH"[OF Some GGroup "4.prems"] Some GGroup show ?thesis by simp
    qed
  qed
qed simp_all

lemma group_set_params_total:
  assumes fin: "finite (clean_nodes (s :: 'w rt))" and c: "card (clean_nodes s) \<le> f"
  shows "\<exists>e s'. group_set_params f items s kwargs = Some (e, s')"
proof -
  let ?g = "global_entries items kwargs"
  let ?sp = "specific_entries items kwargs"
  obtain s1 where a: "(if length ?g > 0 then set_global_params f ?g s items else Some s) = Some s1"
    and c1: "clean_nodes s1 \<subseteq> clean_nodes s"
    using set_global_total(2)[OF fin c, of ?g items] by (cases "length ?g > 0") auto
  from fits_subset[OF fin c c1] have "finite (clean_nodes s1)" "card (clean_nodes s1) \<le> f" by simp_all
  from set_params_spec_total(1)[OF this, of items ?g ?sp]
  obtain e s' where "set_params_spec f items ?g s1 ?sp = Some (e, s')" by auto
  with a show ?thesis by (simp add: group_set_params_def Let_def)
qed

lemma group_set_params_effect:
  assumes "group_set_params f items s kwargs = Some (None, s')"
  shows "stored s' z =
     (case map_of (rev (addressed items (specific_entries items kwargs))) z of
        Some ak \<Rightarrow> routed (global_entries items kwargs) s z ak
      | None \<Rightarrow>
          (ns_args (heap s z),
           map_of (ns_kwargs (heap s z)) ++
             (if z \<in> leaves items
              then map_of (global_entries items kwargs) |` accepts (ns_args_spec (heap s z))
              else Map.empty)))"
proof -
  let ?g = "global_entries items kwargs"
  let ?sp = "specific_entries items kwargs"
  from assms obtain s1 where
    a: "(if length ?g > 0 then set_global_params f ?g s items else Some s) = Some s1"
    and b: "(if length ?sp > 0 then set_params_spec f items ?g s1 ?sp else Some (None, s1)) = Some (None, s')"
    unfolding group_set_params_def Let_def by (auto split: option.splits)
  have A: "(\<forall>z. ns_args_spec (heap s1 z) = ns_args_spec (heap s z)) \<and>
           (\<forall>z. stored s1 z = (ns_args (heap s z), map_of (ns_kwargs (heap s z)) ++
                  (if z \<in> leaves items then map_of ?g |` accepts (ns_args_spec (heap s z)) else Map.empty)))"
  proof (cases "length ?g > 0")
    case True
    with a have "set_global_params f ?g s items = Some s1" by simp
    from set_global_effect(2)[OF this] show ?thesis by (simp add: stored_def)
  next
    case False
    with a have "s1 = s" "?g = []" by simp_all
    then show ?thesis by (simp add: stored_def)
  qed
  have B: "stored s' = foldl (\<lambda>P w. P(fst w := routed ?g s1 (fst w) (snd w))) (stored s1) (addressed items ?sp)"
  proof (cases "length ?sp > 0")
    case True
    with b have "set_params_spec f items ?g s1 ?sp = Some (None, s')" by simp
    from set_params_spec_effect(1)[OF this] show ?thesis by simp
  next
    case False
    with b have "s' = s1" "?sp = []" by simp_all
    then show ?thesis by simp
  qed
  from A have r: "routed ?g s1 = routed ?g s" by (simp add: routed_def fun_eq_iff)
  show ?thesis
    unfolding B r foldl_point_updates using A by (simp split: option.splits)
qed

text \<open>
  C4. \<open>set(**kwargs)\<close> on a group returns once the fuel covers the clean nodes. The entries
  whose key names no direct child are global, the others specific. When it returns
  normally, the stored parameters of every node \<open>z\<close> are these. If a specific entry (at any
  depth of nested dicts) addresses \<open>z\<close> with a bundle \<open>(a, k)\<close> (the last one, should several
  address it), the args of \<open>z\<close> are \<open>a\<close> and its kwargs are the global entries overridden by
  \<open>k\<close>, cut down to what the signature of \<open>z\<close> accepts: every keyword when it has a variadic
  keyword collector, the declared parameter names otherwise. If no specific entry addresses
  \<open>z\<close>, its args are unchanged, and its kwargs are the old ones, overridden by the accepted
  global entries when \<open>z\<close> is a node in the subtree of the group. So a specific value wins
  over a global one, and a keyword that the signature rejects is never stored.
\<close>

theorem group_set_routes_parameters:
  "(finite (clean_nodes s) \<and> card (clean_nodes s) \<le> f \<longrightarrow>
      (\<exists>e s1. group_set_params f items s kwargs = Some (e, s1))) \<and>
   (group_set_params f items s kwargs = Some (None, s') \<longrightarrow>
      (\<forall>z. stored s' z =
         (case map_of (rev (addressed items (specific_entries items kwargs))) z of
            Some ak \<Rightarrow> routed (global_entries items kwargs) s z ak
          | None \<Rightarrow>
              (ns_args (heap s z),
               map_of (ns_kwargs (heap s z)) ++
                 (if z \<in> leaves items
                  then map_of (global_entries items kwargs) |` accepts (ns_args_spec (heap s z))
                  else Map.empty)))) \<and>
      (\<forall>z a k c v. map_of (rev (addressed items (specific_entries items kwargs))) z = Some (a, k) \<and>
          map_of k c = Some v \<and> c \<in> accepts (ns_args_spec (heap s z)) \<longrightarrow>
          map_of (ns_kwargs (heap s' z)) c = Some v) \<and>
      (\<forall>z c. c \<notin> accepts (ns_args_spec (heap s z)) \<longrightarrow>
          map_of (ns_kwargs (heap s' z)) c =
            (case map_of (rev (addressed items (specific_entries items kwargs))) z of
               Some ak \<Rightarrow> None
             | None \<Rightarrow> map_of (ns_kwargs (heap s z)) c)))"
proof (intro conjI impI allI)
  assume "finite (clean_nodes s) \<and> card (clean_nodes s) \<le> f"
  then show "\<exists>e s1. group_set_params f items s kwargs = Some (e, s1)"
    using group_set_params_total by blast
next
  fix z assume a: "group_set_params f items s kwargs = Some (None, s')"
  show "stored s' z =
         (case map_of (rev (addressed items (specific_entries items kwargs))) z of
            Some ak \<Rightarrow> routed (global_entries items kwargs) s z ak
          | None \<Rightarrow>
              (ns_args (heap s z),
               map_of (ns_kwargs (heap s z)) ++
                 (if z \<in> leaves items
                  then map_of (global_entries items kwargs) |` accepts (ns_args_spec (heap s z))
                  else Map.empty)))"
    by (rule group_set_params_effect[OF a])
next
  fix z a k c v
  assume a: "group_set_params f items s kwargs = Some (None, s')"
    and b: "map_of (rev (addressed items (specific_entries items kwargs))) z = Some (a, k) \<and>
          map_of k c = Some v \<and> c \<in> accepts (ns_args_spec (heap s z))"
  from group_set_params_effect[OF a, of z] b
  have "map_of (ns_kwargs (heap s' z)) =
          (map_of (global_entries items kwargs) ++ map_of k) |` accepts (ns_args_spec (heap s z))"
    by (simp add: stored_def routed_def)
  with b show "map_of (ns_kwargs (heap s' z)) c = Some v" by (simp add: restrict_map_def map_add_def)
next
  fix z c
  assume a: "group_set_params f items s kwargs = Some (None, s')"
    and b: "c \<notin> accepts (ns_args_spec (heap s z))"
  from group_set_params_effect[OF a, of z] b
  show "map_of (ns_kwargs (heap s' z)) c =
            (case map_of (rev (addressed items (specific_entries items kwargs))) z of
               Some ak \<Rightarrow> None
             | None \<Rightarrow> map_of (ns_kwargs (heap s z)) c)"
    by (auto simp: stored_def routed_def restrict_map_def map_add_def split: option.splits)
qed

lemma routing_entries:
  "global_entries routing_items routing_kwargs = [(PStr ''fudge'', VInt 10)]"
  "specific_entries routing_items routing_kwargs = [(PStr ''x'', VParams [VInt 1] [(PStr ''fudge'', VInt 11)])]"
  by (simp_all add: global_entries_def specific_entries_def routing_items_def routing_kwargs_def item_of_def)

lemma routing_returns: "\<exists>s'. group_set_params 0 routing_items routing_rt routing_kwargs = Some (None, s')"
  by (simp add: group_set_params_def routing_entries Let_def)
     (simp add: routing_items_def routing_rt_def fresh_node_def item_of_def node_set_params_def
        set_kwargs_def set_args_def upd_node_def)

theorem group_set_routes_parameters_witness:
  "\<exists>s'. group_set_params 0 routing_items routing_rt routing_kwargs = Some (None, s') \<and>
     stored s' 0 = ([VInt 1], [PStr ''fudge'' \<mapsto> VInt 11]) \<and>
     stored s' 1 = ([], Map.empty) \<and>
     stored s' 2 = ([], [PStr ''fudge'' \<mapsto> VInt 10])"
proof -
  from routing_returns obtain s' where
    r: "group_set_params 0 routing_items routing_rt routing_kwargs = Some (None, s')" by auto
  from group_set_routes_parameters[of routing_rt 0 routing_items routing_kwargs s'] r
  have e: "\<And>z. stored s' z =
         (case map_of (rev (addressed routing_items (specific_entries routing_items routing_kwargs))) z of
            Some ak \<Rightarrow> routed (global_entries routing_items routing_kwargs) routing_rt z ak
          | None \<Rightarrow>
              (ns_args (heap routing_rt z),
               map_of (ns_kwargs (heap routing_rt z)) ++
                 (if z \<in> leaves routing_items
                  then map_of (global_entries routing_items routing_kwargs) |` accepts (ns_args_spec (heap routing_rt z))
                  else Map.empty)))"
    by simp
  have ad: "addressed routing_items (specific_entries routing_items routing_kwargs)
              = [(0, [VInt 1], [(PStr ''fudge'', VInt 11)])]"
    by (simp add: routing_entries) (simp add: routing_items_def item_of_def)
  have lv: "leaves routing_items = {0, 1, 2}" by (auto simp: routing_items_def)
  have "stored s' 0 = ([VInt 1], [PStr ''fudge'' \<mapsto> VInt 11])"
    unfolding e ad
    by (auto simp: routed_def routing_entries routing_rt_def fresh_node_def accepts_def spec_contains_def
        restrict_map_def map_add_def fun_eq_iff)
  moreover have "stored s' 1 = ([], Map.empty)"
    unfolding e ad lv
    by (auto simp: routing_entries routing_rt_def fresh_node_def accepts_def spec_contains_def
        restrict_map_def map_add_def fun_eq_iff)
  moreover have "stored s' 2 = ([], [PStr ''fudge'' \<mapsto> VInt 10])"
    unfolding e ad lv
    by (auto simp: routing_entries routing_rt_def fresh_node_def accepts_def spec_contains_def
        restrict_map_def map_add_def fun_eq_iff)
  ultimately show ?thesis using r by blast
qed

section \<open>Building blueprints\<close>

lemma pipeline_ab_built:
  "pipe 0 [SCallable (plain_fn 1 ''a''), SCallable (plain_fn 2 ''b'')] = Some (Inr pipeline_ab)"
  by (simp add: pipe_def priv_pipe_def store_vertex_def deduce_name_def plain_fn_def
      store_node_def_def NodeDef_def empty_graph_def dict_set_def edges_append_def pipeline_ab_def)

text \<open>
  C9. The method \<open>pipe\<close> of a blueprint raises \<open>ValueError\<close> when it is given fewer than two
  items, before anything is stored or wired. The top-level \<open>pipe\<close> has no such check: with
  no item at all it returns an empty graph.
\<close>

theorem pipe_arity:
  "(length nodes < 2 \<longrightarrow> graph_pipe g nodes = Inl ValueError) \<and>
   pipe gid [] = Some (Inr (empty_graph gid))"
  by (simp add: graph_pipe_def pipe_def priv_pipe_def)

theorem pipe_arity_witness:
  "length [SCallable (plain_fn 1 ''a'')] < 2 \<and>
   graph_pipe pipeline_ab [SCallable (plain_fn 1 ''a'')] = Inl ValueError \<and>
   graph_pipe pipeline_ab [] = Inl ValueError \<and>
   pipe 0 [] = Some (Inr (empty_graph 0))"
  using pipe_arity[of "[SCallable (plain_fn 1 ''a'')]" pipeline_ab 0] pipe_arity[of "[]" pipeline_ab 0]
  by simp

theorem pipe_without_items_returns_counterexample:
  "length ([] :: sitem list) < 2 \<and>
   pipe 7 [] = Some (Inr \<lparr>bg_items = [], bg_prefix = [], bg_downstream = [], bg_upstream = [], bg_root = 7\<rparr>)"
  by (simp add: pipe_def priv_pipe_def empty_graph_def)

text \<open>
  C7. Storing a callable, or a partial application of a callable, under a name that holds
  a node definition returns normally and replaces the callable, the default positional
  arguments and the default keyword arguments of that definition. Its owner, name, prefix
  and path, the names of the graph's items in their order, every other item, and the two
  edge maps are as before.
\<close>

theorem store_under_existing_name_updates_in_place:
  assumes "map_of (bg_items g) name = Some (BNode existing_node)"
      and "item = SCallable c \<and> args = [] \<and> kwargs = [] \<or>
           item = SPartial (SCallable c) args keywords \<and>
             kwargs = (case keywords of None \<Rightarrow> [] | Some k \<Rightarrow> k)"
  shows "\<exists>g'. store g item (Some name) = Some (Inr g') \<and>
           bg_downstream g' = bg_downstream g \<and> bg_upstream g' = bg_upstream g \<and>
           bg_prefix g' = bg_prefix g \<and> bg_root g' = bg_root g \<and>
           map fst (bg_items g') = map fst (bg_items g) \<and>
           (\<forall>k. k \<noteq> name \<longrightarrow> map_of (bg_items g') k = map_of (bg_items g) k) \<and>
           map_of (bg_items g') name =
             Some (BNode (existing_node\<lparr>nd_func := c, nd_args := args, nd_kwargs := kwargs\<rparr>))"
proof -
  let ?nd = "existing_node\<lparr>nd_func := c, nd_args := args, nd_kwargs := kwargs\<rparr>"
  let ?g = "g\<lparr>bg_items := dict_set (bg_items g) name (BNode ?nd)\<rparr>"
  have k: "name \<in> fst ` set (bg_items g)"
    using assms(1) by (metis domI dom_map_of_conv_image_fst)
  have "store g item (Some name) = Some (Inr ?g)"
    using assms
    by (auto simp: store_def store_node_def_def deduce_name_def NodeDef_def update_def_def
        split: option.splits)
  moreover have "map fst (bg_items ?g) = map fst (bg_items g)"
    using k by (simp add: dict_set_def update_keys)
  moreover have "\<forall>k. k \<noteq> name \<longrightarrow> map_of (bg_items ?g) k = map_of (bg_items g) k"
    by (simp add: dict_set_def update_conv')
  moreover have "map_of (bg_items ?g) name = Some (BNode ?nd)"
    by (simp add: dict_set_def update_conv')
  ultimately show ?thesis by (intro exI[of _ ?g]) simp
qed

theorem store_under_existing_name_updates_in_place_witness:
  "store pipeline_ab (SPartial (SCallable (plain_fn 3 ''c'')) [VInt 1] (Some [(PStr ''y'', VInt 2)])) (Some ''a'') =
     Some (Inr (pipeline_ab
       \<lparr>bg_items :=
          [(''a'', BNode ((NodeDef 0 (plain_fn 3 ''c'') [] ''a'' (Some [VInt 1]) (Some [(PStr ''y'', VInt 2)])))),
           (''b'', BNode (NodeDef 0 (plain_fn 2 ''b'') [] ''b'' None None))]\<rparr>))"
proof -
  have m: "map_of (bg_items pipeline_ab) ''a'' = Some (BNode (NodeDef 0 (plain_fn 1 ''a'') [] ''a'' None None))"
    by (simp add: pipeline_ab_def)
  from store_under_existing_name_updates_in_place[OF m,
      of "SPartial (SCallable (plain_fn 3 ''c'')) [VInt 1] (Some [(PStr ''y'', VInt 2)])"
         "plain_fn 3 ''c''" "[VInt 1]" "[(PStr ''y'', VInt 2)]" "Some [(PStr ''y'', VInt 2)]"]
  obtain g' where g: "store pipeline_ab (SPartial (SCallable (plain_fn 3 ''c'')) [VInt 1] (Some [(PStr ''y'', VInt 2)])) (Some ''a'') = Some (Inr g')"
    by auto
  then show ?thesis
    by (simp add: store_def store_node_def_def deduce_name_def NodeDef_def update_def_def
        pipeline_ab_def dict_set_def)
qed

section \<open>Edges that target a parameter\<close>

lemma keyword_pipeline_built:
  "\<exists>g. Graph 0 [SCallable (plain_fn 1 ''a''), SCallable (plain_fn 2 ''b'')] [] = Some (Inr g) \<and>
       map_of (bg_items g) ''a'' = Some (BNode (NodeDef 0 (plain_fn 1 ''a'') [] ''a'' None None)) \<and>
       map_of (bg_items g) ''b'' = Some (BNode (NodeDef 0 (plain_fn 2 ''b'') [] ''b'' None None)) \<and>
       graph_pipe g [SNodeDef (NodeDef 0 (plain_fn 1 ''a'') [] ''a'' None None),
                     SEdgeDef (SNodeDef (NodeDef 0 (plain_fn 2 ''b'') [] ''b'' None None)) (Some ''x'')]
         = Inr keyword_pipeline"
  by (simp add: Graph_def union_def store_def graph_pipe_def priv_pipe_def store_vertex_def
      deduce_name_def plain_fn_def store_own_or_rebased_def
      store_node_def_def NodeDef_def empty_graph_def dict_set_def edges_append_def keyword_pipeline_def)

lemma keyword_pipeline_instance:
  "Context f keyword_pipeline [] w =
     Some (Inr \<lparr>ctx_items = [(''a'', GNode 0), (''b'', GNode 1)],
                ctx_nodes = [([''a''], 0), ([''b''], 1)],
                ctx_rt = \<lparr>heap = (\<lambda>_. NodeState [] (plain_fn 0 []) [] [])
                            (0 := (NodeState ''a'' (plain_fn 1 ''a'') [] [])\<lparr>ns_downstream := [1]\<rparr>,
                             1 := (NodeState ''b'' (plain_fn 2 ''b'') [] [])
                                    \<lparr>ns_upstream := [Wrapped (ParamTargetNodeStateWrapper (PNode 0) (PStr ''x''))]\<rparr>),
                          world = w, trace = []\<rparr>\<rparr>)"
  by (simp add: Context_def keyword_pipeline_def NodeDef_def dict_set_def add_downstream_def
      upstream_wire_def wire_peer_def group_set_params_def global_entries_def specific_entries_def
      NodeState_def fun_upd_twist)

text \<open>
  C3. The peer that instance wiring installs for an upstream edge with a target parameter
  holds the node object where the parameter name is expected and the parameter name where
  the node object is expected. Asking it for its cached value raises \<open>AttributeError\<close>
  (a string has no \<open>_eval_cached\<close>), in every state and without reading any node: no
  bundle is returned. In the instance of the blueprint \<open>a \<rightarrow> b.x\<close> the upstream list of \<open>b\<close>
  holds this peer, and a cached read of \<open>b\<close> raises instead of calling \<open>b\<close> with \<open>x\<close>.
\<close>

theorem param_target_wrapper_raises:
  "peer_eval_cached ec s (wire_peer target_node (Some param)) = Some (Inl AttributeError, s) \<and>
   (\<exists>c. Context 0 keyword_pipeline [] w = Some (Inr c) \<and>
        ns_upstream (heap (ctx_rt c) 1) = [wire_peer 0 (Some ''x'')] \<and>
        node_val ap (Suc f) (ctx_rt c) 1 = Some (Inl AttributeError, ctx_rt c))"
proof
  show "peer_eval_cached ec s (wire_peer target_node (Some param)) = Some (Inl AttributeError, s)"
    by (simp add: peer_eval_cached_def wire_peer_def)
  show "\<exists>c. Context 0 keyword_pipeline [] w = Some (Inr c) \<and>
        ns_upstream (heap (ctx_rt c) 1) = [wire_peer 0 (Some ''x'')] \<and>
        node_val ap (Suc f) (ctx_rt c) 1 = Some (Inl AttributeError, ctx_rt c)"
    unfolding keyword_pipeline_instance
    by (simp add: node_val_def eval_with_def peer_eval_cached_def wire_peer_def NodeState_def)
qed

section \<open>Merging blueprints\<close>

lemma touched_simps:
  "touched [] = {}"
  "touched ((key, BNode nd) # rest) = insert (nd_name nd) (touched rest)"
  "touched ((key, BSub p its) # rest) = insert key (touched rest)"
  by (simp_all add: touched_def)







lemma absorbed_cong:
  "(\<forall>k \<in> touched src. map_of t1 k = map_of t2 k) \<Longrightarrow> absorbed r t1 src = absorbed r t2 src"
proof (induction src)
  case Nil
  then show ?case by simp
next
  case (Cons a src)
  obtain key it where a: "a = (key, it)" by (cases a)
  show ?case
  proof (cases it)
    case (BNode nd)
    with Cons a show ?thesis by (simp add: touched_simps)
  next
    case (BSub p its)
    with Cons a show ?thesis by (simp add: touched_simps)
  qed
qed
















lemma two_routes_built:
  "\<exists>h. pipe 1 [SCallable (plain_fn 1 ''a''), SCallable (plain_fn 2 ''b'')] = Some (Inr h) \<and>
       graph_pipe h [SNodeDef (NodeDef 1 (plain_fn 1 ''a'') [] ''a'' None None),
                     SEdgeDef (SNodeDef (NodeDef 1 (plain_fn 2 ''b'') [] ''b'' None None)) (Some ''x'')]
         = Inr two_routes"
  by (simp add: pipe_def graph_pipe_def priv_pipe_def store_vertex_def
      deduce_name_def plain_fn_def store_own_or_rebased_def
      store_node_def_def NodeDef_def empty_graph_def dict_set_def edges_append_def two_routes_def)





section \<open>The example instance\<close>

lemma scaled_pipeline_built:
  "pipe 0 [SCallable (named_fn 1 ''a'' [''x'', ''y'']), SCallable (named_fn 2 ''b'' [''value'', ''fudge''])]
     = Some (Inr scaled_pipeline)"
  by (simp add: pipe_def priv_pipe_def store_vertex_def deduce_name_def named_fn_def
      store_node_def_def NodeDef_def empty_graph_def dict_set_def edges_append_def scaled_pipeline_def)

lemma scaled_instance:
  "Context f scaled_pipeline [] 0 =
     Some (Inr \<lparr>ctx_items = [(''a'', GNode 0), (''b'', GNode 1)],
                ctx_nodes = [([''a''], 0), ([''b''], 1)],
                ctx_rt = scaled_rt\<rparr>)"
  by (simp add: Context_def scaled_pipeline_def NodeDef_def dict_set_def add_downstream_def
      upstream_wire_def wire_peer_def group_set_params_def global_entries_def specific_entries_def
      NodeState_def fun_upd_twist scaled_rt_def)

lemma primed_reached:
  "\<exists>s. node_set_params 0 scaled_rt 0 [VInt 5] [(PStr ''y'', VInt 10), (PStr ''bogus'', VInt 1)] = Some s \<and>
       node_update 0 s 1 [(PStr ''fudge'', VInt 10)] = Some primed_rt"
  by (simp add: node_set_params_def node_update_def set_args_def set_kwargs_def upd_node_def
      filtered_kwargs_def spec_contains_def dict_set_def scaled_rt_def primed_rt_def NodeState_def
      named_fn_def fun_upd_twist)

section \<open>Cached reads return\<close>

lemma layered_evolves: "evolves s s' \<Longrightarrow> layered rank s \<Longrightarrow> layered rank s'"
  by (simp add: layered_def evolves_links)

lemma peer_total:
  assumes ec: "\<And>m. pnode u = Some m \<Longrightarrow> \<exists>r s'. ec s m = Some (r, s') \<and> evolves s s'"
  shows "\<exists>r s'. peer_eval_cached ec s u = Some (r, s') \<and> evolves s s'"
proof (cases u)
  case (Direct m)
  with ec[of m] show ?thesis by (auto simp: peer_eval_cached_def pnode_def)
next
  case (Wrapped w)
  show ?thesis
  proof (cases "wr_state w")
    case (PStr x)
    with Wrapped show ?thesis by (simp add: peer_eval_cached_def evolves_refl)
  next
    case (PNode m)
    with Wrapped have "pnode u = Some m" by (simp add: pnode_def)
    from ec[OF this] obtain r s' where e: "ec s m = Some (r, s')" "evolves s s'" by auto
    with Wrapped PNode show ?thesis by (cases r) (simp_all add: peer_eval_cached_def)
  qed
qed

lemma collect_total:
  assumes ec: "\<And>s m. layered rank s \<Longrightarrow> rank m < b \<Longrightarrow> \<exists>r s'. ec s m = Some (r, s') \<and> evolves s s'"
  shows "layered rank s \<Longrightarrow> (\<forall>u\<in>set us. \<forall>m. pnode u = Some m \<longrightarrow> rank m < b) \<Longrightarrow>
         \<exists>r s'. collect ec s us ca ck = Some (r, s')"
proof (induction us arbitrary: s ca ck)
  case Nil
  then show ?case by simp
next
  case (Cons u us)
  have "\<exists>r s'. peer_eval_cached ec s u = Some (r, s') \<and> evolves s s'"
  proof (rule peer_total)
    fix m assume "pnode u = Some m"
    with Cons.prems(2) have "rank m < b" by simp
    from ec[OF Cons.prems(1) this] show "\<exists>r s'. ec s m = Some (r, s') \<and> evolves s s'" .
  qed
  then obtain r s1 where p: "peer_eval_cached ec s u = Some (r, s1)" and e: "evolves s s1" by auto
  show ?case
  proof (cases r)
    case (Inl x)
    with p show ?thesis by simp
  next
    case (Inr v)
    obtain ca' ck' where a: "absorb ca ck v = (ca', ck')" by (cases "absorb ca ck v")
    from Cons.IH[OF layered_evolves[OF e Cons.prems(1)], of ca' ck'] Cons.prems(2)
    obtain r' s' where "collect ec s1 us ca' ck' = Some (r', s')" by auto
    with p Inr a show ?thesis by simp
  qed
qed

lemma eval_cached_total:
  "layered rank s \<Longrightarrow> rank n < f \<Longrightarrow> \<exists>r s'. eval_cached ap f s n = Some (r, s')"
proof (induction f arbitrary: s n)
  case 0
  then show ?case by simp
next
  case (Suc f)
  show ?case
  proof (cases "ns_dirty (heap s n)")
    case False
    then show ?thesis by simp
  next
    case True
    have u: "\<forall>u\<in>set (ns_upstream (heap s n)). \<forall>m. pnode u = Some m \<longrightarrow> rank m < f"
    proof (intro ballI allI impI)
      fix u m assume "u \<in> set (ns_upstream (heap s n))" "pnode u = Some m"
      with Suc.prems(1) have "rank m < rank n" by (auto simp: layered_def)
      with Suc.prems(2) show "rank m < f" by simp
    qed
    have "\<exists>r s'. collect (eval_cached ap f) s (ns_upstream (heap s n)) [] (ns_kwargs (heap s n)) = Some (r, s')"
    proof (rule collect_total[OF _ Suc.prems(1) u])
      fix s1 :: "'a rt" and m
      assume "layered rank s1" "rank m < f"
      from Suc.IH[OF this] obtain r s' where e: "eval_cached ap f s1 m = Some (r, s')" by auto
      with evolves_eval_cached[OF e]
      show "\<exists>r s'. eval_cached ap f s1 m = Some (r, s') \<and> evolves s1 s'" by auto
    qed
    then obtain r s1 where
      c: "collect (eval_cached ap f) s (ns_upstream (heap s n)) [] (ns_kwargs (heap s n)) = Some (r, s1)"
      by auto
    show ?thesis
    proof (cases r)
      case (Inl e)
      with c True show ?thesis by (simp add: eval_with_def)
    next
      case (Inr p)
      obtain ca ck where p: "p = (ca, ck)" by (cases p)
      obtain r2 s2 where "invoke ap s1 n (ca @ ns_args (heap s n)) ck = (r2, s2)"
        by (cases "invoke ap s1 n (ca @ ns_args (heap s n)) ck")
      with c True Inr p show ?thesis by (cases r2) (simp_all add: eval_with_def)
    qed
  qed
qed

lemma dirty_read_assembly:
  assumes d: "ns_dirty (heap s n)"
    and ra: "read_all (eval_cached ap f) s (ns_upstream (heap s n)) = Some (Inr vs, s0)"
    and a: "ap (ns_func (heap s n)) (world s0)
               (concat (map positional_items vs) @ ns_args (heap s n))
               (foldl dict_update (ns_kwargs (heap s n)) (map keyword_items vs)) = (r, w')"
  shows "eval_cached ap (Suc f) s n =
           (case r of
              Inr v \<Rightarrow> Some (Inr v, store_cache (s0\<lparr>world := w', trace := trace s0 @ [Called n]\<rparr>) n v)
            | Inl e \<Rightarrow> Some (Inl e, s0\<lparr>world := w', trace := trace s0 @ [Called n]\<rparr>))"
proof -
  let ?ca = "concat (map positional_items vs)"
  let ?ck = "foldl dict_update (ns_kwargs (heap s n)) (map keyword_items vs)"
  from ra have c: "collect (eval_cached ap f) s (ns_upstream (heap s n)) [] (ns_kwargs (heap s n))
                     = Some (Inr (?ca, ?ck), s0)"
    by (simp add: collect_read_all)
  have pe: "pending s {} n" by (simp add: pending_def)
  have "keep (insert n {}) s s0"
    by (rule stack_eval_with[OF _ pe d c]) (rule stack_eval_cached)
  then have h: "heap s0 n = heap s n" by (simp add: keep_def)
  from a h have i: "invoke ap s0 n (?ca @ ns_args (heap s n)) ?ck
                      = (r, s0\<lparr>world := w', trace := trace s0 @ [Called n]\<rparr>)"
    by (simp add: invoke_def)
  from d c i show ?thesis by (cases r) (simp_all add: eval_with_def)
qed

lemma dirty_read_upstream_raises:
  assumes d: "ns_dirty (heap s n)"
    and ra: "read_all (eval_cached ap f) s (ns_upstream (heap s n)) = Some (Inl e, s0)"
  shows "eval_cached ap (Suc f) s n = Some (Inl e, s0)"
  using d ra by (simp add: eval_with_def collect_read_all)

text \<open>
  C1 (as amended). A cached read of a clean node returns the stored cache and changes
  nothing, so nothing is invoked. A cached read of a dirty node reads its upstream peers in
  order; if one of them raises, the exception is the result. Otherwise the bound callable
  is called once with the upstream results followed by the node's stored args and with the
  node's stored kwargs (under the keyword items of upstream bundles): a returned value is
  stored as the cache and the dirty flag is cleared, an exception is passed on and leaves
  the node as it was, dirty. When a cached read of a dirty node returns a value, the
  callable of the node was invoked exactly once on the way and the next cached read returns
  the same value from the cache and invokes nothing. In a wiring without cycles a cached
  read returns once the fuel exceeds the rank of the node.
\<close>

theorem cached_read_memoizes:
  "(\<not> dirty s n \<longrightarrow> node_val ap f s n = Some (Inr (cache s n), s)) \<and>
   (dirty s n \<and> read_all (eval_cached ap f) s (ns_upstream (heap s n)) = Some (Inl e, s0) \<longrightarrow>
      node_val ap (Suc f) s n = Some (Inl e, s0)) \<and>
   (dirty s n \<and> read_all (eval_cached ap f) s (ns_upstream (heap s n)) = Some (Inr vs, s0) \<and>
    ap (ns_func (heap s n)) (world s0)
       (concat (map positional_items vs) @ ns_args (heap s n))
       (foldl dict_update (ns_kwargs (heap s n)) (map keyword_items vs)) = (r, w') \<longrightarrow>
      node_val ap (Suc f) s n =
        (case r of
           Inr v \<Rightarrow> Some (Inr v, store_cache (s0\<lparr>world := w', trace := trace s0 @ [Called n]\<rparr>) n v)
         | Inl e \<Rightarrow> Some (Inl e, s0\<lparr>world := w', trace := trace s0 @ [Called n]\<rparr>))) \<and>
   (dirty s n \<and> node_val ap f s n = Some (Inr v, s1) \<longrightarrow>
      \<not> dirty s1 n \<and> cache s1 n = v \<and>
      count_list (trace s1) (Called n) = Suc (count_list (trace s) (Called n)) \<and>
      node_val ap f2 s1 n = Some (Inr v, s1)) \<and>
   (dirty s n \<and> node_val ap f s n = Some (Inl e, s1) \<longrightarrow> heap s1 n = heap s n \<and> dirty s1 n) \<and>
   (layered rank s \<and> rank n < f \<longrightarrow> (\<exists>r s'. node_val ap f s n = Some (r, s')))"
proof (intro conjI impI)
  assume "\<not> dirty s n"
  then show "node_val ap f s n = Some (Inr (cache s n), s)"
    by (simp add: dirty_def cache_def node_val_def eval_cached_clean)
next
  assume "dirty s n \<and> read_all (eval_cached ap f) s (ns_upstream (heap s n)) = Some (Inl e, s0)"
  then have d: "ns_dirty (heap s n)"
    and ra: "read_all (eval_cached ap f) s (ns_upstream (heap s n)) = Some (Inl e, s0)"
    unfolding dirty_def by blast+
  from dirty_read_upstream_raises[OF d ra]
  show "node_val ap (Suc f) s n = Some (Inl e, s0)"
    by (simp only: node_val_def)
next
  assume "dirty s n \<and> read_all (eval_cached ap f) s (ns_upstream (heap s n)) = Some (Inr vs, s0) \<and>
    ap (ns_func (heap s n)) (world s0)
       (concat (map positional_items vs) @ ns_args (heap s n))
       (foldl dict_update (ns_kwargs (heap s n)) (map keyword_items vs)) = (r, w')"
  then have d: "ns_dirty (heap s n)"
    and ra: "read_all (eval_cached ap f) s (ns_upstream (heap s n)) = Some (Inr vs, s0)"
    and a: "ap (ns_func (heap s n)) (world s0)
       (concat (map positional_items vs) @ ns_args (heap s n))
       (foldl dict_update (ns_kwargs (heap s n)) (map keyword_items vs)) = (r, w')"
    unfolding dirty_def by blast+
  from dirty_read_assembly[OF d ra a]
  show "node_val ap (Suc f) s n =
        (case r of
           Inr v \<Rightarrow> Some (Inr v, store_cache (s0\<lparr>world := w', trace := trace s0 @ [Called n]\<rparr>) n v)
         | Inl e \<Rightarrow> Some (Inl e, s0\<lparr>world := w', trace := trace s0 @ [Called n]\<rparr>))"
    by (simp only: node_val_def)
next
  assume a: "dirty s n \<and> node_val ap f s n = Some (Inr v, s1)"
  then have d: "ns_dirty (heap s n)" and r: "eval_cached ap f s n = Some (Inr v, s1)"
    by (simp_all add: dirty_def node_val_def)
  from d r obtain f' where f: "f = Suc f'" by (cases f) auto
  from d r f obtain s0 where
    e: "eval_with (eval_cached ap f') ap s n (ns_args (heap s n)) (ns_kwargs (heap s n)) = Some (Inr v, s0)"
    and s1: "s1 = store_cache s0 n v"
    by (auto split: option.splits sum.splits)
  from s1 show "\<not> dirty s1 n" by (simp add: dirty_def store_cache_own)
  from s1 show "cache s1 n = v" by (simp add: cache_def store_cache_own)
  from eval_with_calls_once[OF e d] s1
  show "count_list (trace s1) (Called n) = Suc (count_list (trace s) (Called n))"
    by (simp add: store_cache_trace)
  from s1 show "node_val ap f2 s1 n = Some (Inr v, s1)"
    by (simp add: node_val_def eval_cached_clean store_cache_own)
next
  assume a: "dirty s n \<and> node_val ap f s n = Some (Inl e, s1)"
  then have d: "ns_dirty (heap s n)" and r: "eval_cached ap f s n = Some (Inl e, s1)"
    by (simp_all add: dirty_def node_val_def)
  from d r obtain f' where f: "f = Suc f'" by (cases f) auto
  from d r f have
    "eval_with (eval_cached ap f') ap s n (ns_args (heap s n)) (ns_kwargs (heap s n)) = Some (Inl e, s1)"
    by (auto split: option.splits sum.splits)
  from eval_own_node[OF this] show h: "heap s1 n = heap s n" .
  with d show "dirty s1 n" by (simp add: dirty_def)
next
  assume "layered rank s \<and> rank n < f"
  then have l: "layered rank s" and k: "rank n < f" by blast+
  from eval_cached_total[OF l k]
  show "\<exists>r s'. node_val ap f s n = Some (r, s')"
    by (simp only: node_val_def)
qed

lemma primed_dirty: "dirty primed_rt 0" "dirty primed_rt 1"
  by (simp_all add: dirty_def primed_rt_def NodeState_def)

lemma primed_layered: "layered (\<lambda>z. z) primed_rt"
  by (auto simp: layered_def primed_rt_def NodeState_def pnode_def split: if_splits)

lemma primed_read_upstream:
  "read_all (eval_cached tally_app 1) primed_rt (ns_upstream (heap primed_rt 1)) =
     Some (Inr [a_result], store_cache (primed_rt\<lparr>world := 1, trace := [Called 0]\<rparr>) 0 a_result)"
  by (simp add: primed_rt_def NodeState_def peer_eval_cached_def eval_with_def invoke_def
      tally_app_def store_cache_def upd_node_def a_result_def)

lemma primed_call_b:
  "tally_app (ns_func (heap primed_rt 1))
     (world (store_cache (primed_rt\<lparr>world := 1, trace := [Called 0]\<rparr>) 0 a_result))
     (concat (map positional_items [a_result]) @ ns_args (heap primed_rt 1))
     (foldl dict_update (ns_kwargs (heap primed_rt 1)) (map keyword_items [a_result]))
   = (Inr b_result, 2)"
  by (simp add: primed_rt_def NodeState_def tally_app_def store_cache_def upd_node_def
      a_result_def b_result_def dict_update_def)

lemma served_reached: "node_val tally_app 2 primed_rt 1 = Some (Inr b_result, served_rt)"
  by (simp add: node_val_def numeral_2_eq_2 primed_rt_def served_rt_def NodeState_def
      peer_eval_cached_def eval_with_def invoke_def absorb_def
      tally_app_def store_cache_def upd_node_def a_result_def b_result_def fun_upd_twist)

text \<open>
  The claim as stated fails for a node whose callable raises: the failed read leaves the
  node dirty, so the second read calls the callable again, twice in all. It also fails for
  a clean node: a cached read of it invokes nothing.
\<close>

theorem two_reads_counterexample:
  "trace primed_rt = [] \<and>
   node_val failing_app 1 primed_rt 0 =
     Some (Inl (UserError ''boom''), primed_rt\<lparr>world := 1, trace := [Called 0]\<rparr>) \<and>
   node_val failing_app 1 (primed_rt\<lparr>world := 1, trace := [Called 0]\<rparr>) 0 =
     Some (Inl (UserError ''boom''), primed_rt\<lparr>world := 2, trace := [Called 0, Called 0]\<rparr>) \<and>
   count_list (trace (primed_rt\<lparr>world := 2, trace := [Called 0, Called 0]\<rparr>)) (Called 0) = 2 \<and>
   node_val tally_app 1 served_rt 0 = Some (Inr a_result, served_rt) \<and>
   count_list (trace served_rt) (Called 0) = 1"
proof (intro conjI)
  show "trace primed_rt = []" by (simp add: primed_rt_def)
  show "node_val failing_app 1 primed_rt 0 =
     Some (Inl (UserError ''boom''), primed_rt\<lparr>world := 1, trace := [Called 0]\<rparr>)"
    by (simp add: node_val_def primed_rt_def NodeState_def eval_with_def invoke_def failing_app_def)
  show "node_val failing_app 1 (primed_rt\<lparr>world := 1, trace := [Called 0]\<rparr>) 0 =
     Some (Inl (UserError ''boom''), primed_rt\<lparr>world := 2, trace := [Called 0, Called 0]\<rparr>)"
    by (simp add: node_val_def primed_rt_def NodeState_def eval_with_def invoke_def failing_app_def)
  show "count_list (trace (primed_rt\<lparr>world := 2, trace := [Called 0, Called 0]\<rparr>)) (Called 0) = 2"
    by simp
  show "node_val tally_app 1 served_rt 0 = Some (Inr a_result, served_rt)"
    by (simp add: node_val_def served_rt_def NodeState_def)
  show "count_list (trace served_rt) (Called 0) = 1"
    by (simp add: served_rt_def)
qed

lemma primed_failing_call:
  "read_all (eval_cached failing_app 0) primed_rt (ns_upstream (heap primed_rt 0)) =
     Some (Inr [], primed_rt) \<and>
   failing_app (ns_func (heap primed_rt 0)) (world primed_rt)
      (concat (map positional_items []) @ ns_args (heap primed_rt 0))
      (foldl dict_update (ns_kwargs (heap primed_rt 0)) (map keyword_items []))
     = (Inl (UserError ''boom''), 1)"
  by (simp add: primed_rt_def NodeState_def failing_app_def)

lemma served_clean: "\<not> dirty served_rt 0" "\<not> dirty served_rt 1"
  by (simp_all add: dirty_def served_rt_def NodeState_def)

theorem cached_read_memoizes_witness:
  "dirty primed_rt 1 \<and> layered (\<lambda>z. z) primed_rt \<and>
   read_all (eval_cached tally_app 1) primed_rt (ns_upstream (heap primed_rt 1)) =
     Some (Inr [a_result], store_cache (primed_rt\<lparr>world := 1, trace := [Called 0]\<rparr>) 0 a_result) \<and>
   (\<exists>s1. node_val tally_app 2 primed_rt 1 = Some (Inr b_result, s1) \<and>
         \<not> dirty s1 1 \<and> cache s1 1 = b_result \<and>
         count_list (trace s1) (Called 1) = Suc (count_list (trace primed_rt) (Called 1)) \<and>
         node_val tally_app 0 s1 1 = Some (Inr b_result, s1)) \<and>
   b_result = VTuple [VInt 1,
                      VTuple [VTuple [VInt 0, VTuple [VInt 5], VDict [(PStr ''y'', VInt 10)]]],
                      VDict [(PStr ''fudge'', VInt 10)]] \<and>
   (\<exists>s1. node_val failing_app 1 primed_rt 0 = Some (Inl (UserError ''boom''), s1) \<and>
         heap s1 0 = heap primed_rt 0 \<and> dirty s1 0) \<and>
   (\<exists>r s'. node_val tally_app 2 primed_rt 1 = Some (r, s')) \<and>
   node_val tally_app 0 served_rt 1 = Some (Inr (cache served_rt 1), served_rt)"
proof -
  let ?mid = "store_cache (primed_rt\<lparr>world := 1, trace := [Called 0]\<rparr>) 0 a_result"
  let ?s1 = "store_cache (?mid\<lparr>world := 2, trace := trace ?mid @ [Called 1]\<rparr>) 1 b_result"
  let ?s2 = "primed_rt\<lparr>world := 1, trace := trace primed_rt @ [Called 0]\<rparr>"
  have nv: "node_val tally_app 2 primed_rt 1 = Some (Inr b_result, ?s1)"
    using cached_read_memoizes[where s = primed_rt and n = 1 and ap = tally_app and f = 1
      and vs = "[a_result]" and ?s0.0 = ?mid and r = "Inr b_result" and w' = 2,
      THEN conjunct2, THEN conjunct2, THEN conjunct1, rule_format,
      OF conjI[OF primed_dirty(2) conjI[OF primed_read_upstream primed_call_b]]]
    by (simp add: numeral_2_eq_2)
  have a: "\<not> dirty ?s1 1 \<and> cache ?s1 1 = b_result \<and>
         count_list (trace ?s1) (Called 1) = Suc (count_list (trace primed_rt) (Called 1)) \<and>
         node_val tally_app 0 ?s1 1 = Some (Inr b_result, ?s1)"
    by (rule cached_read_memoizes[where s = primed_rt and n = 1 and ap = tally_app and f = 2
      and v = b_result and ?s1.0 = ?s1 and ?f2.0 = 0,
      THEN conjunct2, THEN conjunct2, THEN conjunct2, THEN conjunct1, rule_format,
      OF conjI[OF primed_dirty(2) nv]])
  have b: "\<exists>s1. node_val tally_app 2 primed_rt 1 = Some (Inr b_result, s1) \<and>
         \<not> dirty s1 1 \<and> cache s1 1 = b_result \<and>
         count_list (trace s1) (Called 1) = Suc (count_list (trace primed_rt) (Called 1)) \<and>
         node_val tally_app 0 s1 1 = Some (Inr b_result, s1)"
    by (rule exI[of _ ?s1]) (rule conjI[OF nv a])
  have fv: "node_val failing_app 1 primed_rt 0 = Some (Inl (UserError ''boom''), ?s2)"
    using cached_read_memoizes[where s = primed_rt and n = 0 and ap = failing_app and f = 0
      and vs = "[]" and ?s0.0 = primed_rt and r = "Inl (UserError ''boom'')" and w' = 1,
      THEN conjunct2, THEN conjunct2, THEN conjunct1, rule_format,
      OF conjI[OF primed_dirty(1) primed_failing_call]]
    by simp
  have fd: "heap ?s2 0 = heap primed_rt 0 \<and> dirty ?s2 0"
    by (rule cached_read_memoizes[where s = primed_rt and n = 0 and ap = failing_app and f = 1
      and e = "UserError ''boom''" and ?s1.0 = ?s2,
      THEN conjunct2, THEN conjunct2, THEN conjunct2, THEN conjunct2, THEN conjunct1, rule_format,
      OF conjI[OF primed_dirty(1) fv]])
  have c: "\<exists>s1. node_val failing_app 1 primed_rt 0 = Some (Inl (UserError ''boom''), s1) \<and>
         heap s1 0 = heap primed_rt 0 \<and> dirty s1 0"
    by (rule exI[of _ ?s2]) (rule conjI[OF fv fd])
  have d: "\<exists>r s'. node_val tally_app 2 primed_rt 1 = Some (r, s')"
    by (rule cached_read_memoizes[where s = primed_rt and n = 1 and ap = tally_app and f = 2
      and rank = "\<lambda>z. z",
      THEN conjunct2, THEN conjunct2, THEN conjunct2, THEN conjunct2, THEN conjunct2, rule_format,
      OF conjI[OF primed_layered]]) simp
  have e: "node_val tally_app 0 served_rt 1 = Some (Inr (cache served_rt 1), served_rt)"
    by (rule cached_read_memoizes[where s = served_rt and n = 1 and ap = tally_app and f = 0,
      THEN conjunct1, rule_format, OF served_clean(2)])
  have v: "b_result = VTuple [VInt 1,
                      VTuple [VTuple [VInt 0, VTuple [VInt 5], VDict [(PStr ''y'', VInt 10)]]],
                      VDict [(PStr ''fudge'', VInt 10)]]"
    by (simp add: b_result_def a_result_def)
  show ?thesis
    by (intro conjI primed_dirty(2) primed_layered primed_read_upstream b v c d e)
qed

section \<open>Setting a node's parameters and what it invalidates\<close>









end
